theory Spec2Isabelle
  imports Main "HOL-Library.AList"
begin

section \<open>The data of \<open>lib/index.js\<close>\<close>

text \<open>
  The module keeps three variables for the whole process: \<open>isShuttingDown\<close>,
  \<open>connections\<close> (an object keyed by connection id) and \<open>connectionCounter\<close>.
  Every call of \<open>GracefulShutdown(server, opts)\<close> adds handlers that close over the same
  three variables.

  Sockets are objects of the runtime: the handlers write the fields \<open>_isIdle\<close> and
  \<open>_connectionId\<close> on them and the registry holds references to them. They live in a
  store indexed by an address. A field that was never written is \<open>undefined\<close> in
  JavaScript: \<open>_isIdle\<close> is only read as a condition, where \<open>undefined\<close> counts as
  false, so it is a \<open>bool\<close>; \<open>_connectionId\<close> is an \<open>option\<close>.

  \<open>connectionCounter\<close> is a JavaScript number that only ever grows by one from zero;
  it is a \<open>nat\<close> here, which is exact as long as fewer than \<open>2 ^ 53\<close> connections
  have been accepted.
\<close>

text \<open>The value of an optional callback field of the options (\<open>onShutdown\<close>,
  \<open>finally\<close>): absent, a plain function (class tag \<open>[object Function]\<close>), or any
  other truthy value. \<open>isFunction\<close> compares the class tag, so a value with another tag
  (a string, an object, an \<open>async function\<close> with its tag \<open>[object AsyncFunction]\<close>) is an
  \<open>OtherValue\<close>.\<close>

datatype callback = Undefined | PlainFunction | OtherValue

text \<open>The \<open>opts\<close> argument: every key may be absent.\<close>

record opts =
  opt_signals :: "string option"
  opt_timeout :: "nat option"
  opt_development :: "bool option"
  opt_onShutdown :: callback
  opt_finally :: callback

text \<open>The merged \<open>options\<close> object. The key \<open>finally\<close> is written
  \<open>finally_cb\<close>.\<close>

record options =
  signals :: string
  timeout :: nat
  development :: bool
  onShutdown :: callback
  finally_cb :: callback

text \<open>One call of \<open>GracefulShutdown\<close>: the server it was given and its options.\<close>

record graceful =
  server :: nat
  options :: options

record socket =
  isIdle :: bool
  connectionId :: "nat option"

text \<open>What the handlers do to the outside world, in the order they do it.
  \<open>DebugDestroyed n\<close> is the line \<open>debug('Connections destroyed : ' + counter)\<close>, the
  only place where the count of \<open>cleanupHttp\<close> is produced; the other debug lines carry no
  data of the module and are left out.\<close>

datatype effect =
    is_SocketDestroy: SocketDestroy nat
  | is_SetTimeout: SetTimeout nat
  | is_OnShutdownCall: OnShutdownCall nat
  | is_DebugDestroyed: DebugDestroyed nat
  | is_ServerClose: ServerClose nat
  | is_ProcessExit: ProcessExit nat
  | is_FinallyCall: FinallyCall nat

datatype error = TypeError

text \<open>
  The state: the three module variables, the socket store, and what the runtime holds for
  the module: the timers that were set, the servers whose \<open>then\<close> callback waits for the
  promise of \<open>onShutdown\<close>, the servers whose \<open>close\<close> callback is outstanding, the exit
  status once \<open>process.exit\<close> was called, and the effects so far. The timer is set with
  \<open>unref()\<close>, so it does not keep the process alive; a process that ends because nothing
  is left to do is outside the module and is not an event here. Time is not measured: a
  timer is outstanding until it fires.
\<close>

record state =
  isShuttingDown :: bool
  connections :: "(nat \<times> nat) list"
  connectionCounter :: nat
  sockets :: "nat \<Rightarrow> socket"
  timers :: "nat list"
  pending :: "nat list"
  closing :: "nat list"
  exited :: "nat option"
  trace :: "effect list"

type_synonym outcome = "(error \<times> state) + state"

definition init :: state where
  "init = \<lparr> isShuttingDown = False, connections = [], connectionCounter = 0,
            sockets = (\<lambda>_. \<lparr> isIdle = False, connectionId = None \<rparr>),
            timers = [], pending = [], closing = [], exited = None, trace = [] \<rparr>"

text \<open>The state an outcome stops in: at the \<open>throw\<close> when the handler threw.\<close>

fun state_of :: "outcome \<Rightarrow> state" where
  "state_of (Inl (e, s)) = s"
| "state_of (Inr s) = s"

section \<open>The functions of \<open>GracefulShutdown\<close>\<close>

text \<open>\<open>objectAssign({signals: 'SIGINT SIGTERM', timeout: 30000, development: false}, opts)\<close>:
  a key of \<open>opts\<close> overrides the default.\<close>

definition objectAssign :: "opts \<Rightarrow> options" where
  "objectAssign opts =
     \<lparr> signals = (case opt_signals opts of None \<Rightarrow> ''SIGINT SIGTERM'' | Some v \<Rightarrow> v),
       timeout = (case opt_timeout opts of None \<Rightarrow> 30000 | Some t \<Rightarrow> t),
       development = (case opt_development opts of None \<Rightarrow> False | Some d \<Rightarrow> d),
       onShutdown = opt_onShutdown opts,
       finally_cb = opt_finally opts \<rparr>"

definition GracefulShutdown :: "nat \<Rightarrow> opts \<Rightarrow> graceful" where
  "GracefulShutdown srv opts = \<lparr> server = srv, options = objectAssign opts \<rparr>"

definition truthy :: "callback \<Rightarrow> bool" where
  "truthy c = (c \<noteq> Undefined)"

definition isFunction :: "callback \<Rightarrow> bool" where
  "isFunction functionToCheck = (truthy functionToCheck \<and> functionToCheck = PlainFunction)"

text \<open>\<open>delete connections[socket._connectionId]\<close>: with an undefined id no numeric key
  is removed.\<close>

definition delete_connection :: "nat option \<Rightarrow> (nat \<times> nat) list \<Rightarrow> (nat \<times> nat) list" where
  "delete_connection k c = (case k of None \<Rightarrow> c | Some i \<Rightarrow> AList.delete i c)"

definition destroy :: "nat \<Rightarrow> state \<Rightarrow> state" where
  "destroy a s =
     (if isIdle (sockets s a) \<and> isShuttingDown s
      then s \<lparr> trace := trace s @ [SocketDestroy a],
               connections := delete_connection (connectionId (sockets s a)) (connections s) \<rparr>
      else s)"

text \<open>The handler of the server's \<open>request\<close> event, and the handler of the response's
  \<open>finish\<close> event that it installs; \<open>a\<close> is \<open>req.socket\<close>.\<close>

definition on_request :: "nat \<Rightarrow> state \<Rightarrow> state" where
  "on_request a s = s \<lparr> sockets := (sockets s)(a := (sockets s a) \<lparr> isIdle := False \<rparr>) \<rparr>"

definition on_finish :: "nat \<Rightarrow> state \<Rightarrow> state" where
  "on_finish a s =
     destroy a (s \<lparr> sockets := (sockets s)(a := (sockets s a) \<lparr> isIdle := True \<rparr>) \<rparr>)"

text \<open>The handler of the server's \<open>connection\<close> event, and the handler of the socket's
  \<open>close\<close> event that it installs with the id it has assigned.\<close>

definition on_connection :: "nat \<Rightarrow> state \<Rightarrow> state" where
  "on_connection a s =
     (let cid = connectionCounter s
      in s \<lparr> connectionCounter := Suc cid,
             sockets := (sockets s)(a := \<lparr> isIdle = True, connectionId = Some cid \<rparr>),
             connections := AList.update cid a (connections s) \<rparr>)"

definition on_close :: "nat \<Rightarrow> state \<Rightarrow> state" where
  "on_close cid s = s \<lparr> connections := AList.delete cid (connections s) \<rparr>"

text \<open>The handler of the process's \<open>exit\<close> event of the \<open>i\<close>-th instance.\<close>

definition on_exit :: "graceful list \<Rightarrow> nat \<Rightarrow> state \<Rightarrow> state" where
  "on_exit insts i s =
     (if truthy (finally_cb (options (insts ! i))) \<and> isFunction (finally_cb (options (insts ! i)))
      then s \<lparr> trace := trace s @ [FinallyCall i] \<rparr>
      else s)"

text \<open>\<open>process.exit(code)\<close> of the runtime: the \<open>exit\<close> handlers of all instances run, in
  the order they were installed, and the process ends with the status.\<close>

definition process_exit :: "graceful list \<Rightarrow> nat \<Rightarrow> state \<Rightarrow> state" where
  "process_exit insts code s =
     (fold (on_exit insts) [0..<length insts] (s \<lparr> trace := trace s @ [ProcessExit code] \<rparr>))
       \<lparr> exited := Some code \<rparr>"

text \<open>\<open>Object.keys(connections)\<close>: the keys are integers, which JavaScript lists in
  ascending order.\<close>

definition Object_keys :: "(nat \<times> nat) list \<Rightarrow> nat list" where
  "Object_keys c = sort (remdups (map fst c))"

text \<open>The \<open>forEach\<close> of \<open>cleanupHttp\<close> over the keys taken before the loop.
  \<open>connections[key]\<close> is looked up when the key's turn comes: when an earlier
  \<open>destroy\<close> has deleted it, \<open>destroy(undefined)\<close> reads a field of \<open>undefined\<close> and
  throws.\<close>

fun forEach_destroy :: "nat list \<Rightarrow> nat \<Rightarrow> state \<Rightarrow> (error \<times> state) + (nat \<times> state)" where
  "forEach_destroy [] counter s = Inr (counter, s)"
| "forEach_destroy (key # keys) counter s =
     (case map_of (connections s) key of
        None \<Rightarrow> Inl (TypeError, s)
      | Some a \<Rightarrow> forEach_destroy keys (Suc counter) (destroy a s))"

text \<open>\<open>cleanupHttp\<close> of a \<open>shutdown\<close> call for the server \<open>srv\<close>; \<open>counter\<close> is the
  call's local variable, zero when \<open>cleanupHttp\<close> runs.\<close>

definition cleanupHttp :: "nat \<Rightarrow> state \<Rightarrow> outcome" where
  "cleanupHttp srv s =
     (case forEach_destroy (Object_keys (connections s)) 0 s of
        Inl e \<Rightarrow> Inl e
      | Inr (counter, s') \<Rightarrow>
          Inr (s' \<lparr> trace := trace s' @ [DebugDestroyed counter, ServerClose srv],
                    closing := closing s' @ [srv] \<rparr>))"

text \<open>\<open>shutdown(sig)\<close> of the \<open>i\<close>-th instance. \<open>options.onShutdown()\<close> is taken to
  return a promise without throwing, as the module expects; its \<open>then\<close> callback waits
  in \<open>pending\<close> until the promise resolves or rejects.\<close>

definition shutdown :: "graceful list \<Rightarrow> nat \<Rightarrow> state \<Rightarrow> outcome" where
  "shutdown insts i s =
     (let opt = options (insts ! i) in
      if development opt then Inr (process_exit insts 0 s)
      else if \<not> isShuttingDown s then
        (let s1 = s \<lparr> isShuttingDown := True \<rparr>;
             s2 = (if timeout opt \<noteq> 0
                   then s1 \<lparr> timers := timers s1 @ [timeout opt],
                             trace := trace s1 @ [SetTimeout (timeout opt)] \<rparr>
                   else s1)
         in if truthy (onShutdown opt) \<and> isFunction (onShutdown opt)
            then Inr (s2 \<lparr> trace := trace s2 @ [OnShutdownCall i],
                           pending := pending s2 @ [server (insts ! i)] \<rparr>)
            else cleanupHttp (server (insts ! i)) s2)
      else Inr s)"

section \<open>The process as a transition system\<close>

text \<open>
  One event is one run of a callback that the module has installed: a handler of a server,
  socket, response or signal event, the timer callback (\<open>process.exit(1)\<close>), the \<open>then\<close>
  callback (\<open>cleanupHttp()\<close>) and the callback of \<open>server.close\<close> (\<open>process.exit(0)\<close>).
  The module calls \<open>then\<close> with a fulfilment callback only and installs no rejection
  handler, so a promise of \<open>onShutdown\<close> that rejects is a rejection nobody handles: the
  \<open>then\<close> callback is dropped and the runtime ends the process with status 1, running the
  \<open>exit\<close> handlers as for every exit (the default of the runtime since Node 15; older
  runtimes printed a warning and went on). Nothing runs once the process has exited. A run
  stops at the first handler that throws.
\<close>

datatype event =
    Connection nat
  | Request nat
  | Finish nat
  | Close nat
  | Signal nat
  | TimerFired
  | HookResolved
  | HookRejected
  | ServerClosed

definition step :: "graceful list \<Rightarrow> event \<Rightarrow> state \<Rightarrow> outcome" where
  "step insts e s =
     (if exited s \<noteq> None then Inr s
      else case e of
        Connection a \<Rightarrow> Inr (on_connection a s)
      | Request a \<Rightarrow> Inr (on_request a s)
      | Finish a \<Rightarrow> Inr (on_finish a s)
      | Close cid \<Rightarrow> Inr (on_close cid s)
      | Signal i \<Rightarrow> (if i < length insts then shutdown insts i s else Inr s)
      | TimerFired \<Rightarrow>
          (case timers s of
             [] \<Rightarrow> Inr s
           | t # ts \<Rightarrow> Inr (process_exit insts 1 (s \<lparr> timers := ts \<rparr>)))
      | HookResolved \<Rightarrow>
          (case pending s of
             [] \<Rightarrow> Inr s
           | srv # rest \<Rightarrow> cleanupHttp srv (s \<lparr> pending := rest \<rparr>))
      | HookRejected \<Rightarrow>
          (case pending s of
             [] \<Rightarrow> Inr s
           | srv # rest \<Rightarrow> Inr (process_exit insts 1 (s \<lparr> pending := rest \<rparr>)))
      | ServerClosed \<Rightarrow>
          (case closing s of
             [] \<Rightarrow> Inr s
           | srv # rest \<Rightarrow> Inr (process_exit insts 0 (s \<lparr> closing := rest \<rparr>))))"

fun run :: "graceful list \<Rightarrow> event list \<Rightarrow> state \<Rightarrow> outcome" where
  "run insts [] s = Inr s"
| "run insts (e # es) s =
     (case step insts e s of
        Inl x \<Rightarrow> Inl x
      | Inr s' \<Rightarrow> run insts es s')"

section \<open>Notions used in the statements\<close>

text \<open>\<open>GracefulShutdown(server)\<close> with no \<open>opts\<close>: \<open>opts || {}\<close> is the empty
  object.\<close>

definition no_opts :: opts where
  "no_opts = \<lparr> opt_signals = None, opt_timeout = None, opt_development = None,
               opt_onShutdown = Undefined, opt_finally = Undefined \<rparr>"

text \<open>The state the loop of \<open>cleanupHttp\<close> stops in.\<close>

fun sweep_state :: "(error \<times> state) + (nat \<times> state) \<Rightarrow> state" where
  "sweep_state (Inl (e, s)) = s"
| "sweep_state (Inr (c, s)) = s"

text \<open>The registry as the \<open>connection\<close> handler leaves it when every socket is announced
  once: one entry per key, and every entry's socket carries the entry's key as its
  \<open>_connectionId\<close>.\<close>

definition registry_consistent :: "state \<Rightarrow> bool" where
  "registry_consistent s =
     (distinct (map fst (connections s)) \<and>
      list_all (\<lambda>(k, a). connectionId (sockets s a) = Some k) (connections s))"

text \<open>The sockets of the registry that are idle.\<close>

definition idle_registered :: "state \<Rightarrow> nat set" where
  "idle_registered s = {a \<in> snd ` set (connections s). isIdle (sockets s a)}"

text \<open>The timers \<open>shutdown\<close> sets for a merged timeout: none for zero.\<close>

definition forced_timers :: "nat \<Rightarrow> nat list" where
  "forced_timers t = (if t \<noteq> 0 then [t] else [])"

text \<open>The instances whose \<open>finally\<close> option is a plain function, in the order of their
  \<open>exit\<close> handlers.\<close>

definition finally_instances :: "graceful list \<Rightarrow> nat list" where
  "finally_instances insts =
     filter (\<lambda>j. finally_cb (options (insts ! j)) = PlainFunction) [0..<length insts]"

text \<open>The effects after those of an earlier state.\<close>

definition new_effects :: "state \<Rightarrow> state \<Rightarrow> effect list" where
  "new_effects s t = drop (length (trace s)) (trace t)"

text \<open>The invariant behind "at most once": before the flag is set nothing of a shutdown has
  happened and no \<open>then\<close> callback waits; the timer is set at most once, the hook called at
  most once, and \<open>cleanupHttp\<close> has finished or is still to come for at most one waiting
  callback.\<close>

definition shutdown_once :: "state \<Rightarrow> bool" where
  "shutdown_once s =
     ((isShuttingDown s \<or>
        (pending s = [] \<and> filter is_SetTimeout (trace s) = [] \<and>
         filter is_OnShutdownCall (trace s) = [] \<and> filter is_DebugDestroyed (trace s) = [] \<and>
         filter is_ServerClose (trace s) = [])) \<and>
      length (filter is_SetTimeout (trace s)) \<le> 1 \<and>
      length (filter is_OnShutdownCall (trace s)) \<le> 1 \<and>
      length (pending s) + length (filter is_DebugDestroyed (trace s)) \<le> 1 \<and>
      length (pending s) + length (filter is_ServerClose (trace s)) \<le> 1)"

text \<open>The ids that the \<open>connection\<close> handler hands out in a run, in order.\<close>

fun assigned_ids :: "graceful list \<Rightarrow> event list \<Rightarrow> state \<Rightarrow> nat list" where
  "assigned_ids insts [] s = []"
| "assigned_ids insts (e # es) s =
     (case e of
        Connection a \<Rightarrow> (if exited s = None then [connectionCounter s] else [])
      | _ \<Rightarrow> [])
     @ (case step insts e s of
          Inl x \<Rightarrow> []
        | Inr s' \<Rightarrow> assigned_ids insts es s')"

text \<open>A consistent registry whose ids were all handed out by the counter.\<close>

definition registry_ok :: "state \<Rightarrow> bool" where
  "registry_ok s =
     (registry_consistent s \<and> list_all (\<lambda>(k, a). k < connectionCounter s) (connections s))"

text \<open>A run in which the \<open>connection\<close> handler never receives a socket that is in the
  registry at that moment: the server announces a socket once, and one instance listens to
  it.\<close>

fun announced_once :: "graceful list \<Rightarrow> event list \<Rightarrow> state \<Rightarrow> bool" where
  "announced_once insts [] s = True"
| "announced_once insts (e # es) s =
     ((case e of Connection a \<Rightarrow> a \<notin> snd ` set (connections s) | _ \<Rightarrow> True) \<and>
      (case step insts e s of
         Inl x \<Rightarrow> True
       | Inr s' \<Rightarrow> announced_once insts es s'))"

section \<open>What the functions leave unchanged and what they append\<close>


lemma destroy_fields [simp]:
  "isShuttingDown (destroy a s) = isShuttingDown s"
  "connectionCounter (destroy a s) = connectionCounter s"
  "sockets (destroy a s) = sockets s"
  "timers (destroy a s) = timers s"
  "pending (destroy a s) = pending s"
  "closing (destroy a s) = closing s"
  "exited (destroy a s) = exited s"
  by (simp_all add: destroy_def)

lemma trace_destroy:
  "trace (destroy a s) =
     trace s @ (if isIdle (sockets s a) \<and> isShuttingDown s then [SocketDestroy a] else [])"
  by (simp add: destroy_def)

lemma destroy_busy: "\<not> isIdle (sockets s a) \<Longrightarrow> destroy a s = s"
  by (simp add: destroy_def)

lemma destroy_running: "\<not> isShuttingDown s \<Longrightarrow> destroy a s = s"
  by (simp add: destroy_def)


lemma forEach_destroy_fields [simp]:
  "isShuttingDown (sweep_state (forEach_destroy ks c s)) = isShuttingDown s"
  "connectionCounter (sweep_state (forEach_destroy ks c s)) = connectionCounter s"
  "sockets (sweep_state (forEach_destroy ks c s)) = sockets s"
  "timers (sweep_state (forEach_destroy ks c s)) = timers s"
  "pending (sweep_state (forEach_destroy ks c s)) = pending s"
  "closing (sweep_state (forEach_destroy ks c s)) = closing s"
  "exited (sweep_state (forEach_destroy ks c s)) = exited s"
  by (induction ks arbitrary: c s; simp split: option.splits)+

lemma forEach_destroy_trace:
  "\<exists>ds. trace (sweep_state (forEach_destroy ks c s)) = trace s @ map SocketDestroy ds
     \<and> (\<forall>a \<in> set ds. isIdle (sockets s a) \<and> isShuttingDown s)"
proof (induction ks arbitrary: c s)
  case Nil
  show ?case by (rule exI [of _ "[]"]) simp
next
  case (Cons k ks)
  show ?case
  proof (cases "map_of (connections s) k")
    case None
    then show ?thesis by (intro exI [of _ "[]"]) simp
  next
    case (Some a)
    from Cons.IH [of "Suc c" "destroy a s"] obtain ds where
      ds: "trace (sweep_state (forEach_destroy ks (Suc c) (destroy a s))) =
             trace (destroy a s) @ map SocketDestroy ds"
          "\<forall>b \<in> set ds. isIdle (sockets s b) \<and> isShuttingDown s"
      by auto
    show ?thesis
      by (rule exI [of _ "(if isIdle (sockets s a) \<and> isShuttingDown s then [a] else []) @ ds"])
         (use Some ds in \<open>auto simp: trace_destroy\<close>)
  qed
qed

lemma forEach_destroy_counter:
  "forEach_destroy ks c s = Inr (c', s') \<Longrightarrow> c' = c + length ks"
proof (induction ks arbitrary: c s)
  case Nil
  then show ?case by simp
next
  case (Cons k ks)
  from Cons.prems obtain a where
    "forEach_destroy ks (Suc c) (destroy a s) = Inr (c', s')"
    by (auto split: option.splits)
  from Cons.IH [OF this] show ?case by simp
qed

lemma state_of_cleanupHttp_fields [simp]:
  "isShuttingDown (state_of (cleanupHttp srv s)) = isShuttingDown s"
  "connectionCounter (state_of (cleanupHttp srv s)) = connectionCounter s"
  "sockets (state_of (cleanupHttp srv s)) = sockets s"
  "timers (state_of (cleanupHttp srv s)) = timers s"
  "pending (state_of (cleanupHttp srv s)) = pending s"
  "exited (state_of (cleanupHttp srv s)) = exited s"
proof -
  let ?r = "forEach_destroy (Object_keys (connections s)) 0 s"
  have *: "state_of (cleanupHttp srv s) =
      (case ?r of Inl (e, t) \<Rightarrow> t
       | Inr (c, t) \<Rightarrow> t \<lparr> trace := trace t @ [DebugDestroyed c, ServerClose srv],
                              closing := closing t @ [srv] \<rparr>)"
    by (simp add: cleanupHttp_def split: sum.splits prod.splits)
  note f = forEach_destroy_fields [of "Object_keys (connections s)" 0 s]
  show "isShuttingDown (state_of (cleanupHttp srv s)) = isShuttingDown s"
    using f(1) by (cases ?r) (auto simp: * split: prod.splits)
  show "connectionCounter (state_of (cleanupHttp srv s)) = connectionCounter s"
    using f(2) by (cases ?r) (auto simp: * split: prod.splits)
  show "sockets (state_of (cleanupHttp srv s)) = sockets s"
    using f(3) by (cases ?r) (auto simp: * split: prod.splits)
  show "timers (state_of (cleanupHttp srv s)) = timers s"
    using f(4) by (cases ?r) (auto simp: * split: prod.splits)
  show "pending (state_of (cleanupHttp srv s)) = pending s"
    using f(5) by (cases ?r) (auto simp: * split: prod.splits)
  show "exited (state_of (cleanupHttp srv s)) = exited s"
    using f(7) by (cases ?r) (auto simp: * split: prod.splits)
qed

lemma cleanupHttp_trace:
  "\<exists>ds. (\<forall>a \<in> set ds. isIdle (sockets s a) \<and> isShuttingDown s) \<and>
     (case cleanupHttp srv s of
        Inl (e, t) \<Rightarrow> trace t = trace s @ map SocketDestroy ds \<and> closing t = closing s
      | Inr t \<Rightarrow> trace t = trace s @ map SocketDestroy ds
                    @ [DebugDestroyed (length (Object_keys (connections s))), ServerClose srv]
                 \<and> closing t = closing s @ [srv])"
proof -
  let ?r = "forEach_destroy (Object_keys (connections s)) 0 s"
  from forEach_destroy_trace [of "Object_keys (connections s)" 0 s] obtain ds where
    ds: "trace (sweep_state ?r) = trace s @ map SocketDestroy ds"
        "\<forall>a \<in> set ds. isIdle (sockets s a) \<and> isShuttingDown s"
    by auto
  have cl: "closing (sweep_state ?r) = closing s" by simp
  show ?thesis
  proof (cases ?r)
    case (Inl x)
    then show ?thesis using ds cl
      by (intro exI [of _ ds]) (auto simp: cleanupHttp_def split: prod.splits)
  next
    case (Inr y)
    obtain c t where y: "y = (c, t)" by (cases y)
    have "c = length (Object_keys (connections s))"
      using forEach_destroy_counter [of _ 0 s c t] Inr y by simp
    then show ?thesis using ds cl Inr y
      by (intro exI [of _ ds]) (auto simp: cleanupHttp_def)
  qed
qed

lemma fold_on_exit:
  "fold (on_exit insts) js s =
     s \<lparr> trace := trace s @ map FinallyCall
            (filter (\<lambda>j. finally_cb (options (insts ! j)) = PlainFunction) js) \<rparr>"
  by (induction js arbitrary: s) (auto simp: on_exit_def isFunction_def truthy_def)

lemma process_exit_eq:
  "process_exit insts code s =
     s \<lparr> trace := trace s @ ProcessExit code # map FinallyCall (finally_instances insts),
         exited := Some code \<rparr>"
  by (simp add: process_exit_def fold_on_exit finally_instances_def)

lemma shutdown_development:
  "development (options (insts ! i)) \<Longrightarrow> shutdown insts i s = Inr (process_exit insts 0 s)"
  by (simp add: shutdown_def)

lemma shutdown_again:
  "\<not> development (options (insts ! i)) \<Longrightarrow> isShuttingDown s \<Longrightarrow> shutdown insts i s = Inr s"
  by (simp add: shutdown_def)

lemma shutdown_hook:
  "\<not> development (options (insts ! i)) \<Longrightarrow> \<not> isShuttingDown s \<Longrightarrow>
   onShutdown (options (insts ! i)) = PlainFunction \<Longrightarrow>
   shutdown insts i s =
     Inr (s \<lparr> isShuttingDown := True,
              timers := timers s @ forced_timers (timeout (options (insts ! i))),
              trace := trace s @ map SetTimeout (forced_timers (timeout (options (insts ! i))))
                         @ [OnShutdownCall i],
              pending := pending s @ [server (insts ! i)] \<rparr>)"
  by (simp add: shutdown_def forced_timers_def truthy_def isFunction_def Let_def)

lemma shutdown_no_hook:
  "\<not> development (options (insts ! i)) \<Longrightarrow> \<not> isShuttingDown s \<Longrightarrow>
   onShutdown (options (insts ! i)) \<noteq> PlainFunction \<Longrightarrow>
   shutdown insts i s =
     cleanupHttp (server (insts ! i))
       (s \<lparr> isShuttingDown := True,
            timers := timers s @ forced_timers (timeout (options (insts ! i))),
            trace := trace s @ map SetTimeout (forced_timers (timeout (options (insts ! i)))) \<rparr>)"
  by (simp add: shutdown_def forced_timers_def truthy_def isFunction_def Let_def)

lemma run_invariant:
  assumes "P s" and "\<And>e t. P t \<Longrightarrow> P (state_of (step insts e t))"
  shows "P (state_of (run insts es s))"
  using assms(1)
proof (induction es arbitrary: s)
  case Nil
  then show ?case by simp
next
  case (Cons e es)
  show ?case
  proof (cases "step insts e s")
    case (Inl x)
    with assms(2) [OF Cons.prems, of e] show ?thesis by simp
  next
    case (Inr s')
    with assms(2) [OF Cons.prems, of e] have "P s'" by simp
    from Cons.IH [OF this] Inr show ?thesis by simp
  qed
qed

lemma run_append:
  "run insts (es @ fs) s =
     (case run insts es s of Inl x \<Rightarrow> Inl x | Inr t \<Rightarrow> run insts fs t)"
  by (induction es arbitrary: s) (auto split: sum.splits)

text \<open>The definitions a concrete run is evaluated with.\<close>

lemmas example_defs =
  GracefulShutdown_def objectAssign_def no_opts_def init_def step_def on_connection_def
  on_request_def on_finish_def on_close_def shutdown_def cleanupHttp_def Object_keys_def
  destroy_def delete_connection_def truthy_def isFunction_def process_exit_def on_exit_def

lemma registry_consistent_delete:
  assumes "registry_consistent s" and "connectionId (sockets s a) = Some k"
  shows "a \<notin> snd ` set (AList.delete k (connections s))"
proof
  assume "a \<in> snd ` set (AList.delete k (connections s))"
  then obtain j where j: "(j, a) \<in> set (connections s)" and "j \<noteq> k"
    by (auto simp: AList.delete_eq)
  from assms(1) j have "connectionId (sockets s a) = Some j"
    by (auto simp: registry_consistent_def list_all_iff)
  with assms(2) \<open>j \<noteq> k\<close> show False by simp
qed

lemma registry_consistent_unregistered:
  assumes "registry_consistent s" and "connectionId (sockets s a) = None"
  shows "a \<notin> snd ` set (connections s)"
  using assms by (auto simp: registry_consistent_def list_all_iff)

section \<open>The development fast path\<close>

text \<open>
  Claim C7. When the \<open>development\<close> option of an instance is true, a trigger of that
  instance (in a process that has not exited) calls \<open>process.exit(0)\<close> and nothing
  else: the resulting state is the state before with the exit status 0 set and the trace
  extended by the exit and the \<open>finally\<close> callbacks that the exit runs. No socket is
  destroyed, \<open>onShutdown\<close> is not called, no timer is set, \<open>server.close\<close> is not
  called, and the flag and the registry are as before. (The two debug lines that
  \<open>shutdown\<close> writes first are not effects of the model.)
\<close>

theorem development_trigger_exits:
  assumes "i < length insts" and "development (options (insts ! i))" and "exited s = None"
  shows "step insts (Signal i) s =
           Inr (s \<lparr> trace := trace s @ ProcessExit 0 # map FinallyCall (finally_instances insts),
                    exited := Some 0 \<rparr>)"
  using assms by (simp add: step_def shutdown_development process_exit_eq)

theorem development_trigger_exits_witness:
  "step [GracefulShutdown 7 (no_opts \<lparr> opt_development := Some True, opt_onShutdown := PlainFunction,
                                        opt_finally := PlainFunction \<rparr>)]
        (Signal 0) (on_connection 4 init) =
     Inr ((on_connection 4 init) \<lparr> trace := [ProcessExit 0, FinallyCall 0], exited := Some 0 \<rparr>)"
  using development_trigger_exits
    [of 0 "[GracefulShutdown 7 (no_opts \<lparr> opt_development := Some True,
                                   opt_onShutdown := PlainFunction, opt_finally := PlainFunction \<rparr>)]"
        "on_connection 4 init"]
  by (simp add: GracefulShutdown_def objectAssign_def no_opts_def init_def on_connection_def
        finally_instances_def)

section \<open>The end of a request\<close>

text \<open>
  Claim C6. The \<open>finish\<close> handler of a response, in a process that has not exited, sets
  the \<open>_isIdle\<close> flag of the request's socket. When \<open>isShuttingDown\<close> is set at that
  moment, it destroys the socket in the same step and deletes the registry entry under the
  socket's \<open>_connectionId\<close>, so that on a consistent registry no entry refers to the
  socket any more. When \<open>isShuttingDown\<close> is not set, nothing is destroyed and the registry
  is as before.
\<close>

theorem finish_reclaims:
  assumes "exited s = None"
  shows "\<exists>s'. step insts (Finish a) s = Inr s' \<and> isIdle (sockets s' a) \<and>
           (if isShuttingDown s
            then trace s' = trace s @ [SocketDestroy a] \<and>
                 (\<forall>k. connectionId (sockets s a) = Some k \<longrightarrow> k \<notin> fst ` set (connections s')) \<and>
                 (registry_consistent s \<longrightarrow> a \<notin> snd ` set (connections s'))
            else trace s' = trace s \<and> connections s' = connections s)"
proof (cases "isShuttingDown s")
  case False
  with assms show ?thesis by (simp add: step_def on_finish_def destroy_def)
next
  case True
  let ?s' = "on_finish a s"
  have st: "step insts (Finish a) s = Inr ?s'" using assms by (simp add: step_def)
  have idle: "isIdle (sockets ?s' a)" by (simp add: on_finish_def)
  have tr: "trace ?s' = trace s @ [SocketDestroy a]"
    using True by (simp add: on_finish_def destroy_def)
  have conn: "connections ?s' = delete_connection (connectionId (sockets s a)) (connections s)"
    using True by (simp add: on_finish_def destroy_def)
  have keys: "\<forall>k. connectionId (sockets s a) = Some k \<longrightarrow> k \<notin> fst ` set (connections ?s')"
    by (auto simp: conn delete_connection_def AList.delete_eq)
  have reg: "registry_consistent s \<longrightarrow> a \<notin> snd ` set (connections ?s')"
  proof
    assume rc: "registry_consistent s"
    show "a \<notin> snd ` set (connections ?s')"
    proof (cases "connectionId (sockets s a)")
      case None
      with rc show ?thesis
        using registry_consistent_unregistered [of s a] by (simp add: conn delete_connection_def)
    next
      case (Some k)
      with rc show ?thesis
        using registry_consistent_delete [of s a k] by (simp add: conn delete_connection_def)
    qed
  qed
  from st idle tr keys reg True show ?thesis by simp
qed

theorem finish_reclaims_witness:
  "step [GracefulShutdown 7 (no_opts \<lparr> opt_onShutdown := PlainFunction \<rparr>)] (Finish 3)
     (state_of (run [GracefulShutdown 7 (no_opts \<lparr> opt_onShutdown := PlainFunction \<rparr>)]
                  [Connection 3, Request 3, Signal 0] init))
   = Inr \<lparr> isShuttingDown = True, connections = [], connectionCounter = 1,
           sockets = (\<lambda>_. \<lparr> isIdle = False, connectionId = None \<rparr>)
                       (3 := \<lparr> isIdle = True, connectionId = Some 0 \<rparr>),
           timers = [30000], pending = [7], closing = [], exited = None,
           trace = [SetTimeout 30000, OnShutdownCall 0, SocketDestroy 3] \<rparr>"
  using finish_reclaims
    [of "state_of (run [GracefulShutdown 7 (no_opts \<lparr> opt_onShutdown := PlainFunction \<rparr>)]
                  [Connection 3, Request 3, Signal 0] init)"
        "[GracefulShutdown 7 (no_opts \<lparr> opt_onShutdown := PlainFunction \<rparr>)]" 3]
  by (simp add: example_defs registry_consistent_def)

section \<open>The count of \<open>cleanupHttp\<close>\<close>

text \<open>
  Claim C2, at an input where it fails. One connection is open and a request is in flight on
  it when the signal arrives; no \<open>onShutdown\<close> is configured. The loop of
  \<open>cleanupHttp\<close> visits the one entry and destroys nothing (the trace has no
  \<open>SocketDestroy\<close> and the entry is still in the registry), and the line
  \<open>Connections destroyed\<close> reports 1: \<open>counter++\<close> counts the entries visited, not the
  sockets destroyed.
\<close>

theorem cleanupHttp_reports_iterated_entries:
  "run [GracefulShutdown 7 no_opts] [Connection 3, Request 3, Signal 0] init
   = Inr \<lparr> isShuttingDown = True, connections = [(0, 3)], connectionCounter = 1,
           sockets = (\<lambda>_. \<lparr> isIdle = False, connectionId = None \<rparr>)
                       (3 := \<lparr> isIdle = False, connectionId = Some 0 \<rparr>),
           timers = [30000], pending = [], closing = [7], exited = None,
           trace = [SetTimeout 30000, DebugDestroyed 1, ServerClose 7] \<rparr>"
  by (simp add: example_defs)

section \<open>Traces under a predicate\<close>

lemma filter_SocketDestroy:
  "(\<And>a. \<not> P (SocketDestroy a)) \<Longrightarrow> filter P (map SocketDestroy ds) = []"
  by (induction ds) auto

lemma filter_FinallyCall:
  "(\<And>j. \<not> P (FinallyCall j)) \<Longrightarrow> filter P (map FinallyCall js) = []"
  by (induction js) auto

lemma cleanupHttp_filter:
  assumes "\<And>a. \<not> P (SocketDestroy a)"
  shows "filter P (trace (state_of (cleanupHttp srv s))) =
           filter P (trace s) @
           (case cleanupHttp srv s of
              Inl x \<Rightarrow> []
            | Inr t \<Rightarrow> filter P [DebugDestroyed (length (Object_keys (connections s))),
                                   ServerClose srv])"
proof -
  from cleanupHttp_trace [of s srv] obtain ds where
    ds: "case cleanupHttp srv s of
           Inl (e, t) \<Rightarrow> trace t = trace s @ map SocketDestroy ds \<and> closing t = closing s
         | Inr t \<Rightarrow> trace t = trace s @ map SocketDestroy ds
                       @ [DebugDestroyed (length (Object_keys (connections s))), ServerClose srv]
                    \<and> closing t = closing s @ [srv]"
    by blast
  show ?thesis
  proof (cases "cleanupHttp srv s")
    case (Inl x)
    obtain e t where "x = (e, t)" by (cases x)
    with Inl ds show ?thesis by (simp add: filter_SocketDestroy [of P, OF assms])
  next
    case (Inr t)
    with ds show ?thesis by (simp add: filter_SocketDestroy [of P, OF assms])
  qed
qed

lemma process_exit_filter:
  assumes "\<And>j. \<not> P (FinallyCall j)"
  shows "filter P (trace (process_exit insts code s)) = filter P (trace s) @ filter P [ProcessExit code]"
  by (simp add: process_exit_eq filter_FinallyCall [of P, OF assms])

lemma process_exit_fields [simp]:
  "isShuttingDown (process_exit insts code s) = isShuttingDown s"
  "connections (process_exit insts code s) = connections s"
  "connectionCounter (process_exit insts code s) = connectionCounter s"
  "sockets (process_exit insts code s) = sockets s"
  "timers (process_exit insts code s) = timers s"
  "pending (process_exit insts code s) = pending s"
  "closing (process_exit insts code s) = closing s"
  "exited (process_exit insts code s) = Some code"
  by (simp_all add: process_exit_eq)

lemma merged_timeout:
  "forced_timers (timeout (options (GracefulShutdown srv opts))) =
     (case opt_timeout opts of None \<Rightarrow> [30000] | Some t \<Rightarrow> if t = 0 then [] else [t])"
  by (simp add: GracefulShutdown_def objectAssign_def forced_timers_def split: option.splits)

section \<open>The forced-exit timer\<close>

text \<open>
  Claim C3 as stated, at an input where it fails: the timeout is absent from the options
  (\<open>GracefulShutdown(server)\<close> with no \<open>opts\<close>). The defaults give
  \<open>options.timeout = 30000\<close>, and the trigger sets a timer of 30000 ms.
\<close>

theorem absent_timeout_starts_timer:
  "step [GracefulShutdown 7 no_opts] (Signal 0) init
   = Inr \<lparr> isShuttingDown = True, connections = [], connectionCounter = 0,
           sockets = (\<lambda>_. \<lparr> isIdle = False, connectionId = None \<rparr>),
           timers = [30000], pending = [], closing = [7], exited = None,
           trace = [SetTimeout 30000, DebugDestroyed 0, ServerClose 7] \<rparr>"
  by (simp add: example_defs)

text \<open>
  Claim C3 as amended. For the first trigger (state RUNNING, process alive) of an instance
  that is not in development mode: a timeout configured as zero sets no timer; an absent
  timeout stands for the default of 30000 ms; a non-zero timeout, configured or default,
  sets exactly one timer of that duration and nothing else sets one in that step. Whenever a
  timer is outstanding, its firing calls \<open>process.exit(1)\<close>; with no timer outstanding the
  forced path does nothing.
\<close>

theorem forced_timeout_timer:
  assumes "i < length insts" and "insts ! i = GracefulShutdown srv opts"
    and "opt_development opts \<noteq> Some True"
    and "\<not> isShuttingDown s" and "exited s = None"
  shows "timers (state_of (step insts (Signal i) s)) =
           timers s @ (case opt_timeout opts of None \<Rightarrow> [30000] | Some t \<Rightarrow> if t = 0 then [] else [t])
       \<and> filter is_SetTimeout (trace (state_of (step insts (Signal i) s))) =
           filter is_SetTimeout (trace s) @
           map SetTimeout (case opt_timeout opts of None \<Rightarrow> [30000] | Some t \<Rightarrow> if t = 0 then [] else [t])
       \<and> (exited u = None \<and> timers u = t # ts \<longrightarrow>
            step insts TimerFired u =
              Inr (u \<lparr> timers := ts,
                       trace := trace u @ ProcessExit 1 # map FinallyCall (finally_instances insts),
                       exited := Some 1 \<rparr>))
       \<and> (timers u = [] \<longrightarrow> step insts TimerFired u = Inr u)"
proof -
  let ?o = "options (insts ! i)"
  let ?tm = "forced_timers (timeout ?o)"
  have dev: "\<not> development ?o"
    using assms(2,3) by (cases "opt_development opts") (auto simp: GracefulShutdown_def objectAssign_def)
  have tm: "?tm = (case opt_timeout opts of None \<Rightarrow> [30000] | Some t \<Rightarrow> if t = 0 then [] else [t])"
    using assms(2) merged_timeout [of srv opts] by simp
  have st: "step insts (Signal i) s = shutdown insts i s"
    using assms(1,5) by (simp add: step_def)
  have flt: "filter is_SetTimeout (map SetTimeout ?tm) = map SetTimeout ?tm"
    by (simp add: forced_timers_def)
  have a: "timers (state_of (step insts (Signal i) s)) = timers s @ ?tm
         \<and> filter is_SetTimeout (trace (state_of (step insts (Signal i) s))) =
             filter is_SetTimeout (trace s) @ map SetTimeout ?tm"
  proof (cases "onShutdown ?o = PlainFunction")
    case True
    from shutdown_hook [OF dev assms(4) True] show ?thesis
      by (simp add: st flt)
  next
    case False
    let ?s2 = "s \<lparr> isShuttingDown := True, timers := timers s @ ?tm,
                   trace := trace s @ map SetTimeout ?tm \<rparr>"
    have sh: "shutdown insts i s = cleanupHttp (server (insts ! i)) ?s2"
      by (rule shutdown_no_hook [OF dev assms(4) False])
    have "filter is_SetTimeout (trace (state_of (cleanupHttp (server (insts ! i)) ?s2))) =
            filter is_SetTimeout (trace ?s2)"
      using cleanupHttp_filter [of is_SetTimeout "server (insts ! i)" ?s2]
      by (simp split: sum.splits)
    then show ?thesis by (simp add: st sh flt)
  qed
  have b: "exited u = None \<and> timers u = t # ts \<longrightarrow>
            step insts TimerFired u =
              Inr (u \<lparr> timers := ts,
                       trace := trace u @ ProcessExit 1 # map FinallyCall (finally_instances insts),
                       exited := Some 1 \<rparr>)"
    by (simp add: step_def process_exit_eq)
  have c: "timers u = [] \<longrightarrow> step insts TimerFired u = Inr u"
    by (simp add: step_def)
  from a b c show ?thesis unfolding tm by blast
qed

theorem forced_timeout_timer_witness:
  "timers (state_of (step [GracefulShutdown 7 (no_opts \<lparr> opt_timeout := Some 0 \<rparr>)] (Signal 0) init)) = []
   \<and> step [GracefulShutdown 7 (no_opts \<lparr> opt_timeout := Some 0 \<rparr>)] TimerFired
       (state_of (step [GracefulShutdown 7 (no_opts \<lparr> opt_timeout := Some 0 \<rparr>)] (Signal 0) init))
     = Inr (state_of (step [GracefulShutdown 7 (no_opts \<lparr> opt_timeout := Some 0 \<rparr>)] (Signal 0) init))
   \<and> timers (state_of (step [GracefulShutdown 7 (no_opts \<lparr> opt_timeout := Some 5000 \<rparr>)] (Signal 0)
                 init)) = [5000]
   \<and> trace (state_of (step [GracefulShutdown 7 (no_opts \<lparr> opt_timeout := Some 5000 \<rparr>)] TimerFired
        (state_of (step [GracefulShutdown 7 (no_opts \<lparr> opt_timeout := Some 5000 \<rparr>)] (Signal 0)
                     init))))
     = [SetTimeout 5000, DebugDestroyed 0, ServerClose 7, ProcessExit 1]
   \<and> exited (state_of (step [GracefulShutdown 7 (no_opts \<lparr> opt_timeout := Some 5000 \<rparr>)] TimerFired
        (state_of (step [GracefulShutdown 7 (no_opts \<lparr> opt_timeout := Some 5000 \<rparr>)] (Signal 0)
                     init))))
     = Some 1"
  using forced_timeout_timer
    [of 0 "[GracefulShutdown 7 (no_opts \<lparr> opt_timeout := Some 0 \<rparr>)]" 7
        "no_opts \<lparr> opt_timeout := Some 0 \<rparr>" init
        "state_of (step [GracefulShutdown 7 (no_opts \<lparr> opt_timeout := Some 0 \<rparr>)] (Signal 0) init)"]
    forced_timeout_timer
    [of 0 "[GracefulShutdown 7 (no_opts \<lparr> opt_timeout := Some 5000 \<rparr>)]" 7
        "no_opts \<lparr> opt_timeout := Some 5000 \<rparr>" init
        "state_of (step [GracefulShutdown 7 (no_opts \<lparr> opt_timeout := Some 5000 \<rparr>)] (Signal 0) init)"
        5000 "[]"]
  by (simp add: example_defs finally_instances_def)

section \<open>The loop of \<open>cleanupHttp\<close> on a consistent registry\<close>

lemma consistent_entry:
  assumes "registry_consistent s" and "(k, a) \<in> set (connections s)"
  shows "map_of (connections s) k = Some a" and "connectionId (sockets s a) = Some k"
  using assms by (auto simp: registry_consistent_def list_all_iff)

lemma consistent_same_key:
  assumes "registry_consistent s" and "(k, a) \<in> set (connections s)"
    and "(k, b) \<in> set (connections s)"
  shows "b = a"
  using consistent_entry(1) [OF assms(1,2)] consistent_entry(1) [OF assms(1,3)] by simp

lemma destroy_idle_registered:
  assumes "isShuttingDown s" and "registry_consistent s" and "(k, a) \<in> set (connections s)"
    and "isIdle (sockets s a)"
  shows "destroy a s = s \<lparr> trace := trace s @ [SocketDestroy a],
                           connections := AList.delete k (connections s) \<rparr>"
  using assms consistent_entry(2) [OF assms(2,3)]
  by (simp add: destroy_def delete_connection_def)

lemma registry_consistent_after_delete:
  assumes "registry_consistent s"
  shows "registry_consistent (s \<lparr> trace := tr, connections := AList.delete k (connections s) \<rparr>)"
proof -
  have "distinct (map fst (AList.delete k (connections s)))"
    using assms by (simp add: registry_consistent_def distinct_delete)
  moreover have "set (AList.delete k (connections s)) \<subseteq> set (connections s)"
    by (auto simp: AList.delete_eq)
  ultimately show ?thesis
    using assms by (auto simp: registry_consistent_def list_all_iff)
qed

lemma forEach_destroy_consistent:
  assumes "isShuttingDown s" and "registry_consistent s" and "distinct ks"
    and "set ks \<subseteq> fst ` set (connections s)"
  shows "\<exists>ds t. forEach_destroy ks c s = Inr (c + length ks, t)
           \<and> trace t = trace s @ map SocketDestroy ds
           \<and> set ds = {a. \<exists>k \<in> set ks. (k, a) \<in> set (connections s) \<and> isIdle (sockets s a)}
           \<and> connections t =
               filter (\<lambda>(k, a). \<not> (k \<in> set ks \<and> isIdle (sockets s a))) (connections s)"
  using assms
proof (induction ks arbitrary: c s)
  case Nil
  show ?case
    by (intro exI [of _ "[]"] exI [of _ s]) (simp add: case_prod_unfold)
next
  case (Cons k ks)
  from Cons.prems(4) obtain a where ka: "(k, a) \<in> set (connections s)" by auto
  note rc = Cons.prems(2)
  have mo: "map_of (connections s) k = Some a" by (rule consistent_entry(1) [OF rc ka])
  have only: "\<And>b. (k, b) \<in> set (connections s) \<Longrightarrow> b = a"
    by (rule consistent_same_key [OF rc ka])
  have kks: "k \<notin> set ks" and dks: "distinct ks" using Cons.prems(3) by auto
  show ?case
  proof (cases "isIdle (sockets s a)")
    case True
    let ?s1 = "s \<lparr> trace := trace s @ [SocketDestroy a],
                   connections := AList.delete k (connections s) \<rparr>"
    have d: "destroy a s = ?s1"
      by (rule destroy_idle_registered [OF Cons.prems(1) rc ka True])
    have rc1: "registry_consistent ?s1" by (rule registry_consistent_after_delete [OF rc])
    have sub1: "set ks \<subseteq> fst ` set (connections ?s1)"
      using Cons.prems(4) kks by (force simp: AList.delete_eq)
    have flag1: "isShuttingDown ?s1" using Cons.prems(1) by simp
    from Cons.IH [OF flag1 rc1 dks sub1, of "Suc c"] obtain ds t where
      r: "forEach_destroy ks (Suc c) ?s1 = Inr (Suc c + length ks, t)"
      and tr: "trace t = trace ?s1 @ map SocketDestroy ds"
      and ds: "set ds = {b. \<exists>j \<in> set ks. (j, b) \<in> set (connections ?s1) \<and> isIdle (sockets ?s1 b)}"
      and co: "connections t =
                 filter (\<lambda>(j, b). \<not> (j \<in> set ks \<and> isIdle (sockets ?s1 b))) (connections ?s1)"
      by blast
    have 1: "forEach_destroy (k # ks) c s = Inr (c + length (k # ks), t)"
      using mo d r by simp
    have 2: "trace t = trace s @ map SocketDestroy (a # ds)" using tr by simp
    have del: "set (AList.delete k (connections s)) = {p \<in> set (connections s). fst p \<noteq> k}"
      by (auto simp: AList.delete_eq)
    have ds': "set ds = {b. \<exists>j \<in> set ks. (j, b) \<in> set (connections s) \<and> isIdle (sockets s b)}"
      unfolding ds using kks by (auto simp: del)
    have 3: "set (a # ds) =
               {b. \<exists>j \<in> set (k # ks). (j, b) \<in> set (connections s) \<and> isIdle (sockets s b)}"
    proof (intro set_eqI iffI)
      fix b assume "b \<in> set (a # ds)"
      then show "b \<in> {b. \<exists>j \<in> set (k # ks). (j, b) \<in> set (connections s) \<and> isIdle (sockets s b)}"
        using ka True ds' by auto
    next
      fix b assume "b \<in> {b. \<exists>j \<in> set (k # ks). (j, b) \<in> set (connections s) \<and> isIdle (sockets s b)}"
      then obtain j where j: "j = k \<or> j \<in> set ks" "(j, b) \<in> set (connections s)"
        "isIdle (sockets s b)" by auto
      show "b \<in> set (a # ds)"
      proof (cases "j = k")
        case True
        with j(2) only have "b = a" by simp
        then show ?thesis by simp
      next
        case False
        with j have "b \<in> set ds" unfolding ds' by blast
        then show ?thesis by simp
      qed
    qed
    have "filter (\<lambda>(j, b). \<not> (j \<in> set ks \<and> isIdle (sockets s b)))
            (filter (\<lambda>(j, b). k \<noteq> j) (connections s)) =
          filter (\<lambda>(j, b). \<not> (j \<in> set (k # ks) \<and> isIdle (sockets s b))) (connections s)"
      unfolding filter_filter
    proof (rule filter_cong [OF refl])
      fix p assume p: "p \<in> set (connections s)"
      obtain j b where jb: "p = (j, b)" by (cases p)
      show "((case p of (j, b) \<Rightarrow> k \<noteq> j) \<and>
             (case p of (j, b) \<Rightarrow> \<not> (j \<in> set ks \<and> isIdle (sockets s b)))) =
            (case p of (j, b) \<Rightarrow> \<not> (j \<in> set (k # ks) \<and> isIdle (sockets s b)))"
      proof (cases "j = k")
        case True
        with p jb only have "b = a" by simp
        with True jb \<open>isIdle (sockets s a)\<close> show ?thesis by simp
      next
        case False
        with jb show ?thesis by auto
      qed
    qed
    then have 4: "connections t =
               filter (\<lambda>(j, b). \<not> (j \<in> set (k # ks) \<and> isIdle (sockets s b))) (connections s)"
      unfolding co by (simp add: AList.delete_eq)
    from 1 2 3 4 show ?thesis by blast
  next
    case False
    have d: "destroy a s = s" by (rule destroy_busy [OF False])
    have sub1: "set ks \<subseteq> fst ` set (connections s)" using Cons.prems(4) by simp
    from Cons.IH [OF Cons.prems(1) rc dks sub1, of "Suc c"] obtain ds t where
      r: "forEach_destroy ks (Suc c) s = Inr (Suc c + length ks, t)"
      and tr: "trace t = trace s @ map SocketDestroy ds"
      and ds: "set ds = {b. \<exists>j \<in> set ks. (j, b) \<in> set (connections s) \<and> isIdle (sockets s b)}"
      and co: "connections t =
                 filter (\<lambda>(j, b). \<not> (j \<in> set ks \<and> isIdle (sockets s b))) (connections s)"
      by blast
    have 1: "forEach_destroy (k # ks) c s = Inr (c + length (k # ks), t)"
      using mo d r by simp
    have 3: "set ds =
               {b. \<exists>j \<in> set (k # ks). (j, b) \<in> set (connections s) \<and> isIdle (sockets s b)}"
    proof (intro set_eqI iffI)
      fix b assume "b \<in> set ds"
      then show "b \<in> {b. \<exists>j \<in> set (k # ks). (j, b) \<in> set (connections s) \<and> isIdle (sockets s b)}"
        unfolding ds by auto
    next
      fix b assume "b \<in> {b. \<exists>j \<in> set (k # ks). (j, b) \<in> set (connections s) \<and> isIdle (sockets s b)}"
      then obtain j where j: "j = k \<or> j \<in> set ks" "(j, b) \<in> set (connections s)"
        "isIdle (sockets s b)" by auto
      have "j \<noteq> k"
      proof
        assume "j = k"
        with j(2) only have "b = a" by simp
        with j(3) False show False by simp
      qed
      with j show "b \<in> set ds" unfolding ds by blast
    qed
    have "filter (\<lambda>(j, b). \<not> (j \<in> set ks \<and> isIdle (sockets s b))) (connections s) =
          filter (\<lambda>(j, b). \<not> (j \<in> set (k # ks) \<and> isIdle (sockets s b))) (connections s)"
    proof (rule filter_cong [OF refl])
      fix p assume p: "p \<in> set (connections s)"
      obtain j b where jb: "p = (j, b)" by (cases p)
      show "(case p of (j, b) \<Rightarrow> \<not> (j \<in> set ks \<and> isIdle (sockets s b))) =
            (case p of (j, b) \<Rightarrow> \<not> (j \<in> set (k # ks) \<and> isIdle (sockets s b)))"
      proof (cases "j = k")
        case True
        with p jb only have "b = a" by simp
        with True jb False kks show ?thesis by simp
      next
        case False
        with jb show ?thesis by auto
      qed
    qed
    then have 4: "connections t =
               filter (\<lambda>(j, b). \<not> (j \<in> set (k # ks) \<and> isIdle (sockets s b))) (connections s)"
      unfolding co by simp
    from 1 tr 3 4 show ?thesis by blast
  qed
qed

lemma Object_keys_consistent:
  assumes "registry_consistent s"
  shows "distinct (Object_keys (connections s))"
    and "set (Object_keys (connections s)) = fst ` set (connections s)"
    and "length (Object_keys (connections s)) = length (connections s)"
  using assms by (simp_all add: Object_keys_def registry_consistent_def distinct_remdups_id)

lemma cleanupHttp_consistent:
  assumes "isShuttingDown s" and "registry_consistent s"
  shows "\<exists>ds t. cleanupHttp srv s = Inr t
           \<and> trace t = trace s @ map SocketDestroy ds
                         @ [DebugDestroyed (length (connections s)), ServerClose srv]
           \<and> set ds = idle_registered s
           \<and> connections t = filter (\<lambda>(k, a). \<not> isIdle (sockets s a)) (connections s)
           \<and> closing t = closing s @ [srv]"
proof -
  let ?ks = "Object_keys (connections s)"
  note ok = Object_keys_consistent [OF assms(2)]
  from forEach_destroy_consistent [OF assms ok(1), of 0] ok(2) obtain ds t where
    r: "forEach_destroy ?ks 0 s = Inr (0 + length ?ks, t)"
    and tr: "trace t = trace s @ map SocketDestroy ds"
    and ds: "set ds = {a. \<exists>k \<in> set ?ks. (k, a) \<in> set (connections s) \<and> isIdle (sockets s a)}"
    and co: "connections t =
               filter (\<lambda>(k, a). \<not> (k \<in> set ?ks \<and> isIdle (sockets s a))) (connections s)"
    by blast
  have cl: "closing t = closing s"
    using forEach_destroy_fields(6) [of ?ks 0 s] r by simp
  let ?t = "t \<lparr> trace := trace t @ [DebugDestroyed (length ?ks), ServerClose srv],
                 closing := closing t @ [srv] \<rparr>"
  have 1: "cleanupHttp srv s = Inr ?t" using r by (simp add: cleanupHttp_def)
  have 3: "set ds = idle_registered s"
    unfolding ds idle_registered_def ok(2) by force
  have "filter (\<lambda>(k, a). \<not> (k \<in> set ?ks \<and> isIdle (sockets s a))) (connections s) =
        filter (\<lambda>(k, a). \<not> isIdle (sockets s a)) (connections s)"
  proof (rule filter_cong [OF refl])
    fix p assume p: "p \<in> set (connections s)"
    then have "fst p \<in> set ?ks" unfolding ok(2) by simp
    then show "(case p of (k, a) \<Rightarrow> \<not> (k \<in> set ?ks \<and> isIdle (sockets s a))) =
               (case p of (k, a) \<Rightarrow> \<not> isIdle (sockets s a))"
      by (cases p) simp
  qed
  then have 4: "connections ?t = filter (\<lambda>(k, a). \<not> isIdle (sockets s a)) (connections s)"
    using co by simp
  show ?thesis
    by (intro exI [of _ ds] exI [of _ ?t]) (use 1 tr 3 4 cl ok(3) in simp)
qed

section \<open>The order of hook, reap and close\<close>

text \<open>
  Claim C1 as stated, at an input where it fails. One connection is open and idle, the
  instance has an \<open>onShutdown\<close> function and is not in development mode, the state is
  RUNNING. The trigger sets the flag and the timer, calls \<open>onShutdown\<close> and returns:
  the hook has been invoked (\<open>OnShutdownCall\<close> is in the trace) while the idle socket is
  still in the registry and has not been destroyed (no \<open>SocketDestroy\<close> is in the trace,
  and the idle registered sockets are the same before and after). The sweep over the idle
  connections is in \<open>cleanupHttp\<close>, which runs from the \<open>then\<close> callback of the hook's
  promise.
\<close>

theorem hook_runs_before_reap:
  "step [GracefulShutdown 7 (no_opts \<lparr> opt_onShutdown := PlainFunction \<rparr>)] (Signal 0)
     (on_connection 3 init)
   = Inr \<lparr> isShuttingDown = True, connections = [(0, 3)], connectionCounter = 1,
           sockets = (\<lambda>_. \<lparr> isIdle = False, connectionId = None \<rparr>)
                       (3 := \<lparr> isIdle = True, connectionId = Some 0 \<rparr>),
           timers = [30000], pending = [7], closing = [], exited = None,
           trace = [SetTimeout 30000, OnShutdownCall 0] \<rparr>
   \<and> idle_registered (on_connection 3 init) = {3}
   \<and> idle_registered (state_of (step [GracefulShutdown 7 (no_opts \<lparr> opt_onShutdown := PlainFunction \<rparr>)]
        (Signal 0) (on_connection 3 init))) = {3}"
  by (auto simp: example_defs idle_registered_def)

text \<open>
  Claim C1 as amended. For a trigger of an instance that is not in development mode, in
  state RUNNING and a live process:
  \<^item> with an \<open>onShutdown\<close> function, the trigger sets the flag and the timer, calls the
    hook and does nothing else: registry and sockets are as before, and the \<open>then\<close>
    callback waits;
  \<^item> when the promise resolves, the sockets that are idle at that moment are destroyed and
    removed from the registry, then the count is reported and \<open>server.close\<close> is called:
    reap before close, both after the hook (on a consistent registry, which every run has
    in which each socket is announced once, see the last section);
  \<^item> without an \<open>onShutdown\<close> function, the trigger itself destroys and removes the idle
    sockets and then calls \<open>server.close\<close>.
\<close>

theorem hook_then_reap_then_close:
  assumes "i < length insts" and "\<not> development (options (insts ! i))"
    and "\<not> isShuttingDown s" and "exited s = None"
  shows "(onShutdown (options (insts ! i)) = PlainFunction \<longrightarrow>
            step insts (Signal i) s =
              Inr (s \<lparr> isShuttingDown := True,
                       timers := timers s @ forced_timers (timeout (options (insts ! i))),
                       trace := trace s
                                @ map SetTimeout (forced_timers (timeout (options (insts ! i))))
                                @ [OnShutdownCall i],
                       pending := pending s @ [server (insts ! i)] \<rparr>))
       \<and> (exited u = None \<and> isShuttingDown u \<and> registry_consistent u \<and> pending u = srv # rest \<longrightarrow>
            (\<exists>ds u'. step insts HookResolved u = Inr u'
               \<and> trace u' = trace u @ map SocketDestroy ds
                              @ [DebugDestroyed (length (connections u)), ServerClose srv]
               \<and> set ds = idle_registered u
               \<and> connections u' = filter (\<lambda>(k, a). \<not> isIdle (sockets u a)) (connections u)
               \<and> pending u' = rest))
       \<and> (onShutdown (options (insts ! i)) \<noteq> PlainFunction \<and> registry_consistent s \<longrightarrow>
            (\<exists>ds s'. step insts (Signal i) s = Inr s'
               \<and> trace s' = trace s
                              @ map SetTimeout (forced_timers (timeout (options (insts ! i))))
                              @ map SocketDestroy ds
                              @ [DebugDestroyed (length (connections s)), ServerClose (server (insts ! i))]
               \<and> set ds = idle_registered s
               \<and> connections s' = filter (\<lambda>(k, a). \<not> isIdle (sockets s a)) (connections s)))"
proof (intro conjI impI)
  assume "onShutdown (options (insts ! i)) = PlainFunction"
  from shutdown_hook [OF assms(2,3) this] assms(1,4)
  show "step insts (Signal i) s =
          Inr (s \<lparr> isShuttingDown := True,
                   timers := timers s @ forced_timers (timeout (options (insts ! i))),
                   trace := trace s
                            @ map SetTimeout (forced_timers (timeout (options (insts ! i))))
                            @ [OnShutdownCall i],
                   pending := pending s @ [server (insts ! i)] \<rparr>)"
    by (simp add: step_def)
next
  assume u: "exited u = None \<and> isShuttingDown u \<and> registry_consistent u \<and> pending u = srv # rest"
  let ?u0 = "u \<lparr> pending := rest \<rparr>"
  have st: "step insts HookResolved u = cleanupHttp srv ?u0"
    using u by (simp add: step_def)
  have rc: "registry_consistent ?u0" using u by (simp add: registry_consistent_def)
  have fl: "isShuttingDown ?u0" using u by simp
  from cleanupHttp_consistent [OF fl rc, of srv] obtain ds u' where
    r: "cleanupHttp srv ?u0 = Inr u'"
    and tr: "trace u' = trace ?u0 @ map SocketDestroy ds
                         @ [DebugDestroyed (length (connections ?u0)), ServerClose srv]"
    and ds: "set ds = idle_registered ?u0"
    and co: "connections u' = filter (\<lambda>(k, a). \<not> isIdle (sockets ?u0 a)) (connections ?u0)"
    by blast
  have pe: "pending u' = rest"
    using state_of_cleanupHttp_fields(5) [of srv ?u0] r by simp
  show "\<exists>ds u'. step insts HookResolved u = Inr u'
          \<and> trace u' = trace u @ map SocketDestroy ds
                         @ [DebugDestroyed (length (connections u)), ServerClose srv]
          \<and> set ds = idle_registered u
          \<and> connections u' = filter (\<lambda>(k, a). \<not> isIdle (sockets u a)) (connections u)
          \<and> pending u' = rest"
    by (intro exI [of _ ds] exI [of _ u'])
       (use st r tr ds co pe in \<open>simp add: idle_registered_def\<close>)
next
  assume h: "onShutdown (options (insts ! i)) \<noteq> PlainFunction \<and> registry_consistent s"
  let ?tm = "forced_timers (timeout (options (insts ! i)))"
  let ?s2 = "s \<lparr> isShuttingDown := True, timers := timers s @ ?tm,
                 trace := trace s @ map SetTimeout ?tm \<rparr>"
  have st: "step insts (Signal i) s = cleanupHttp (server (insts ! i)) ?s2"
    using shutdown_no_hook [OF assms(2,3)] h assms(1,4) by (simp add: step_def)
  have rc: "registry_consistent ?s2" using h by (simp add: registry_consistent_def)
  have fl: "isShuttingDown ?s2" by simp
  from cleanupHttp_consistent [OF fl rc, of "server (insts ! i)"] obtain ds s' where
    r: "cleanupHttp (server (insts ! i)) ?s2 = Inr s'"
    and tr: "trace s' = trace ?s2 @ map SocketDestroy ds
                         @ [DebugDestroyed (length (connections ?s2)), ServerClose (server (insts ! i))]"
    and ds: "set ds = idle_registered ?s2"
    and co: "connections s' = filter (\<lambda>(k, a). \<not> isIdle (sockets ?s2 a)) (connections ?s2)"
    by blast
  show "\<exists>ds s'. step insts (Signal i) s = Inr s'
          \<and> trace s' = trace s @ map SetTimeout ?tm @ map SocketDestroy ds
                         @ [DebugDestroyed (length (connections s)), ServerClose (server (insts ! i))]
          \<and> set ds = idle_registered s
          \<and> connections s' = filter (\<lambda>(k, a). \<not> isIdle (sockets s a)) (connections s)"
    by (intro exI [of _ ds] exI [of _ s'])
       (use st r tr ds co in \<open>simp add: idle_registered_def\<close>)
qed

theorem hook_then_reap_then_close_witness:
  "trace (state_of (step [GracefulShutdown 7 (no_opts \<lparr> opt_onShutdown := PlainFunction \<rparr>)]
            (Signal 0) (on_connection 3 init)))
     = [SetTimeout 30000, OnShutdownCall 0]
   \<and> connections (state_of (step [GracefulShutdown 7 (no_opts \<lparr> opt_onShutdown := PlainFunction \<rparr>)]
            (Signal 0) (on_connection 3 init)))
     = [(0, 3)]
   \<and> step [GracefulShutdown 7 (no_opts \<lparr> opt_onShutdown := PlainFunction \<rparr>)] HookResolved
       (state_of (step [GracefulShutdown 7 (no_opts \<lparr> opt_onShutdown := PlainFunction \<rparr>)]
            (Signal 0) (on_connection 3 init)))
     = Inr \<lparr> isShuttingDown = True, connections = [], connectionCounter = 1,
             sockets = (\<lambda>_. \<lparr> isIdle = False, connectionId = None \<rparr>)
                         (3 := \<lparr> isIdle = True, connectionId = Some 0 \<rparr>),
             timers = [30000], pending = [], closing = [7], exited = None,
             trace = [SetTimeout 30000, OnShutdownCall 0, SocketDestroy 3, DebugDestroyed 1,
                      ServerClose 7] \<rparr>
   \<and> trace (state_of (step [GracefulShutdown 7 no_opts] (Signal 0) (on_connection 3 init)))
     = [SetTimeout 30000, SocketDestroy 3, DebugDestroyed 1, ServerClose 7]"
  using hook_then_reap_then_close
    [of 0 "[GracefulShutdown 7 (no_opts \<lparr> opt_onShutdown := PlainFunction \<rparr>)]"
        "on_connection 3 init"
        "state_of (step [GracefulShutdown 7 (no_opts \<lparr> opt_onShutdown := PlainFunction \<rparr>)]
            (Signal 0) (on_connection 3 init))" 7 "[]"]
    hook_then_reap_then_close
    [of 0 "[GracefulShutdown 7 no_opts]" "on_connection 3 init" init 0 "[]"]
  by (simp add: example_defs registry_consistent_def forced_timers_def)

section \<open>The cases of a step, and invariants of runs\<close>

lemma step_cases [case_names noop connection request finish close signal_dev signal_hook
    signal_sweep timer resolved rejected closed]:
  obtains
    "step insts e s = Inr s"
  | a where "e = Connection a" "exited s = None" "step insts e s = Inr (on_connection a s)"
  | a where "e = Request a" "exited s = None" "step insts e s = Inr (on_request a s)"
  | a where "e = Finish a" "exited s = None" "step insts e s = Inr (on_finish a s)"
  | cid where "e = Close cid" "exited s = None" "step insts e s = Inr (on_close cid s)"
  | i where "e = Signal i" "exited s = None" "i < length insts"
      "development (options (insts ! i))"
      "step insts e s = Inr (process_exit insts 0 s)"
  | i where "e = Signal i" "exited s = None" "i < length insts"
      "\<not> development (options (insts ! i))" "\<not> isShuttingDown s"
      "onShutdown (options (insts ! i)) = PlainFunction"
      "step insts e s =
         Inr (s \<lparr> isShuttingDown := True,
                  timers := timers s @ forced_timers (timeout (options (insts ! i))),
                  trace := trace s @ map SetTimeout (forced_timers (timeout (options (insts ! i))))
                             @ [OnShutdownCall i],
                  pending := pending s @ [server (insts ! i)] \<rparr>)"
  | i where "e = Signal i" "exited s = None" "i < length insts"
      "\<not> development (options (insts ! i))" "\<not> isShuttingDown s"
      "onShutdown (options (insts ! i)) \<noteq> PlainFunction"
      "step insts e s =
         cleanupHttp (server (insts ! i))
           (s \<lparr> isShuttingDown := True,
                timers := timers s @ forced_timers (timeout (options (insts ! i))),
                trace := trace s @ map SetTimeout (forced_timers (timeout (options (insts ! i)))) \<rparr>)"
  | t ts where "e = TimerFired" "exited s = None" "timers s = t # ts"
      "step insts e s = Inr (process_exit insts 1 (s \<lparr> timers := ts \<rparr>))"
  | srv rest where "e = HookResolved" "exited s = None" "pending s = srv # rest"
      "step insts e s = cleanupHttp srv (s \<lparr> pending := rest \<rparr>)"
  | srv rest where "e = HookRejected" "exited s = None" "pending s = srv # rest"
      "step insts e s = Inr (process_exit insts 1 (s \<lparr> pending := rest \<rparr>))"
  | srv rest where "e = ServerClosed" "exited s = None" "closing s = srv # rest"
      "step insts e s = Inr (process_exit insts 0 (s \<lparr> closing := rest \<rparr>))"
proof (cases "exited s")
  case (Some c)
  then have "step insts e s = Inr s" by (simp add: step_def)
  then show ?thesis by (rule that(1))
next
  case None
  show ?thesis
  proof (cases e)
    case (Connection a)
    with None show ?thesis by (intro that(2) [of a]) (simp_all add: step_def)
  next
    case (Request a)
    with None show ?thesis by (intro that(3) [of a]) (simp_all add: step_def)
  next
    case (Finish a)
    with None show ?thesis by (intro that(4) [of a]) (simp_all add: step_def)
  next
    case (Close cid)
    with None show ?thesis by (intro that(5) [of cid]) (simp_all add: step_def)
  next
    case (Signal i)
    have st: "i < length insts \<Longrightarrow> step insts e s = shutdown insts i s"
      using None Signal by (simp add: step_def)
    show ?thesis
    proof (cases "i < length insts")
      case False
      with None Signal have "step insts e s = Inr s" by (simp add: step_def)
      then show ?thesis by (rule that(1))
    next
      case i: True
      show ?thesis
      proof (cases "development (options (insts ! i))")
        case True
        with i None Signal st show ?thesis
          by (intro that(6) [of i]) (simp_all add: shutdown_development)
      next
        case dev: False
        show ?thesis
        proof (cases "isShuttingDown s")
          case True
          with dev i st have "step insts e s = Inr s" by (simp add: shutdown_again)
          then show ?thesis by (rule that(1))
        next
          case flag: False
          show ?thesis
          proof (cases "onShutdown (options (insts ! i)) = PlainFunction")
            case True
            with i None Signal st dev flag show ?thesis
              by (intro that(7) [of i]) (simp_all add: shutdown_hook)
          next
            case False
            with i None Signal st dev flag show ?thesis
              by (intro that(8) [of i]) (simp_all add: shutdown_no_hook)
          qed
        qed
      qed
    qed
  next
    case TimerFired
    show ?thesis
    proof (cases "timers s")
      case Nil
      with None TimerFired have "step insts e s = Inr s" by (simp add: step_def)
      then show ?thesis by (rule that(1))
    next
      case (Cons t ts)
      with None TimerFired show ?thesis by (intro that(9) [of t ts]) (simp_all add: step_def)
    qed
  next
    case HookResolved
    show ?thesis
    proof (cases "pending s")
      case Nil
      with None HookResolved have "step insts e s = Inr s" by (simp add: step_def)
      then show ?thesis by (rule that(1))
    next
      case (Cons srv rest)
      with None HookResolved show ?thesis
        by (intro that(10) [of srv rest]) (simp_all add: step_def)
    qed
  next
    case HookRejected
    show ?thesis
    proof (cases "pending s")
      case Nil
      with None HookRejected have "step insts e s = Inr s" by (simp add: step_def)
      then show ?thesis by (rule that(1))
    next
      case (Cons srv rest)
      with None HookRejected show ?thesis
        by (intro that(11) [of srv rest]) (simp_all add: step_def)
    qed
  next
    case ServerClosed
    show ?thesis
    proof (cases "closing s")
      case Nil
      with None ServerClosed have "step insts e s = Inr s" by (simp add: step_def)
      then show ?thesis by (rule that(1))
    next
      case (Cons srv rest)
      with None ServerClosed show ?thesis
        by (intro that(12) [of srv rest]) (simp_all add: step_def)
    qed
  qed
qed

lemma run_invariant_on:
  assumes "P s" and "\<And>e t. e \<in> set es \<Longrightarrow> P t \<Longrightarrow> P (state_of (step insts e t))"
  shows "P (state_of (run insts es s))"
  using assms
proof (induction es arbitrary: s)
  case Nil
  then show ?case by simp
next
  case (Cons e es)
  have here: "P (state_of (step insts e s))" using Cons.prems by simp
  show ?case
  proof (cases "step insts e s")
    case (Inl x)
    with here show ?thesis by simp
  next
    case (Inr s')
    with here have "P s'" by simp
    from Cons.IH [OF this] Cons.prems(2) Inr show ?thesis by simp
  qed
qed

lemma handler_fields [simp]:
  "isShuttingDown (on_connection a s) = isShuttingDown s"
  "isShuttingDown (on_request a s) = isShuttingDown s"
  "isShuttingDown (on_finish a s) = isShuttingDown s"
  "isShuttingDown (on_close cid s) = isShuttingDown s"
  "exited (on_connection a s) = exited s"
  "exited (on_request a s) = exited s"
  "exited (on_finish a s) = exited s"
  "exited (on_close cid s) = exited s"
  "pending (on_connection a s) = pending s"
  "pending (on_request a s) = pending s"
  "pending (on_finish a s) = pending s"
  "pending (on_close cid s) = pending s"
  "closing (on_connection a s) = closing s"
  "closing (on_request a s) = closing s"
  "closing (on_finish a s) = closing s"
  "closing (on_close cid s) = closing s"
  "timers (on_connection a s) = timers s"
  "timers (on_request a s) = timers s"
  "timers (on_finish a s) = timers s"
  "timers (on_close cid s) = timers s"
  "trace (on_connection a s) = trace s"
  "trace (on_request a s) = trace s"
  "trace (on_close cid s) = trace s"
  "trace (on_finish a s) = trace s @ (if isShuttingDown s then [SocketDestroy a] else [])"
  by (simp_all add: on_connection_def on_request_def on_finish_def on_close_def destroy_def Let_def)

lemma flag_step:
  "isShuttingDown s \<Longrightarrow> isShuttingDown (state_of (step insts e s))"
  by (cases rule: step_cases [of insts e s]) simp_all

lemma flag_run:
  "isShuttingDown s \<Longrightarrow> isShuttingDown (state_of (run insts es s))"
  by (rule run_invariant [where P = isShuttingDown]) (simp_all add: flag_step)

section \<open>A shutdown happens at most once\<close>

lemma filter_SetTimeout:
  "(\<And>t. \<not> P (SetTimeout t)) \<Longrightarrow> filter P (map SetTimeout ts) = []"
  by (induction ts) auto

lemma filter_is_SetTimeout [simp]:
  "filter is_SetTimeout (map SetTimeout ts) = map SetTimeout ts"
  by (induction ts) auto

lemma length_forced_timers [simp]: "length (forced_timers t) \<le> Suc 0"
  by (simp add: forced_timers_def)

lemma shutdown_once_step:
  assumes "shutdown_once s"
  shows "shutdown_once (state_of (step insts e s))"
proof (cases rule: step_cases [of insts e s])
  case noop
  with assms show ?thesis by simp
next
  case (connection a)
  with assms show ?thesis by (simp add: shutdown_once_def)
next
  case (request a)
  with assms show ?thesis by (simp add: shutdown_once_def)
next
  case (finish a)
  with assms show ?thesis by (simp add: shutdown_once_def)
next
  case (close cid)
  with assms show ?thesis by (simp add: shutdown_once_def)
next
  case (signal_dev i)
  with assms show ?thesis by (simp add: shutdown_once_def process_exit_filter)
next
  case (signal_hook i)
  with assms show ?thesis by (simp add: shutdown_once_def filter_SetTimeout)
next
  case (signal_sweep i)
  let ?s2 = "s \<lparr> isShuttingDown := True,
                 timers := timers s @ forced_timers (timeout (options (insts ! i))),
                 trace := trace s @ map SetTimeout (forced_timers (timeout (options (insts ! i)))) \<rparr>"
  note f = cleanupHttp_filter [of _ "server (insts ! i)" ?s2]
  from assms signal_sweep(5) have z: "pending s = []" "filter is_SetTimeout (trace s) = []"
    "filter is_OnShutdownCall (trace s) = []" "filter is_DebugDestroyed (trace s) = []"
    "filter is_ServerClose (trace s) = []"
    by (simp_all add: shutdown_once_def)
  show ?thesis
    unfolding signal_sweep(7) shutdown_once_def
    using z f [of is_SetTimeout] f [of is_OnShutdownCall] f [of is_DebugDestroyed]
      f [of is_ServerClose]
    by (simp add: filter_SetTimeout split: sum.splits)
next
  case (timer t ts)
  with assms show ?thesis by (simp add: shutdown_once_def process_exit_filter)
next
  case (resolved srv rest)
  let ?s0 = "s \<lparr> pending := rest \<rparr>"
  note f = cleanupHttp_filter [of _ srv ?s0]
  from assms resolved(3) have z: "isShuttingDown s" "rest = []"
    "filter is_DebugDestroyed (trace s) = []" "filter is_ServerClose (trace s) = []"
    "length (filter is_SetTimeout (trace s)) \<le> 1" "length (filter is_OnShutdownCall (trace s)) \<le> 1"
    by (auto simp: shutdown_once_def)
  show ?thesis
    unfolding resolved(4) shutdown_once_def
    using z f [of is_SetTimeout] f [of is_OnShutdownCall] f [of is_DebugDestroyed]
      f [of is_ServerClose]
    by (simp split: sum.splits)
next
  case (rejected srv rest)
  with assms show ?thesis by (auto simp: shutdown_once_def process_exit_filter)
next
  case (closed srv rest)
  with assms show ?thesis by (simp add: shutdown_once_def process_exit_filter)
qed

lemma shutdown_once_init: "shutdown_once init"
  by (simp add: shutdown_once_def init_def)

lemma trigger_sets_flag:
  assumes "\<not> isShuttingDown s" and "isShuttingDown (state_of (step insts (Signal i) s))"
  shows "i < length insts \<and> \<not> development (options (insts ! i))"
  using assms by (cases rule: step_cases [of insts "Signal i" s]) simp_all

lemma trigger_again:
  assumes "i < length insts" and "\<not> development (options (insts ! i))" and "isShuttingDown t"
  shows "step insts (Signal i) t = Inr t"
  using assms by (simp add: step_def shutdown_again)

text \<open>
  Claim C4. Three parts.
  \<^item> When a trigger of an instance has moved the state from RUNNING to SHUTTING_DOWN, a
    trigger of that instance in any state reached afterwards changes nothing at all: the
    state, with its trace, timers and waiting callbacks, is returned as it is (the call
    writes its debug line, which is not an effect of the model, and does nothing else).
  \<^item> In every run of the process from its initial state, whatever the instances and the
    events, the timer is set at most once, \<open>onShutdown\<close> is called at most once, and
    \<open>cleanupHttp\<close> reports its count and calls \<open>server.close\<close> at most once.
  \<^item> Once \<open>isShuttingDown\<close> is set it stays set.
\<close>

theorem second_trigger_is_noop:
  "(\<not> isShuttingDown s \<and> isShuttingDown (state_of (step insts (Signal i) s)) \<and>
      t = state_of (run insts es (state_of (step insts (Signal i) s))) \<longrightarrow>
        step insts (Signal i) t = Inr t)
   \<and> length (filter is_SetTimeout (trace (state_of (run insts es init)))) \<le> 1
   \<and> length (filter is_OnShutdownCall (trace (state_of (run insts es init)))) \<le> 1
   \<and> length (filter is_DebugDestroyed (trace (state_of (run insts es init)))) \<le> 1
   \<and> length (filter is_ServerClose (trace (state_of (run insts es init)))) \<le> 1
   \<and> (isShuttingDown s \<longrightarrow> isShuttingDown (state_of (run insts es s)))"
proof -
  have 1: "\<not> isShuttingDown s \<and> isShuttingDown (state_of (step insts (Signal i) s)) \<and>
      t = state_of (run insts es (state_of (step insts (Signal i) s))) \<longrightarrow>
        step insts (Signal i) t = Inr t"
  proof
    assume h: "\<not> isShuttingDown s \<and> isShuttingDown (state_of (step insts (Signal i) s)) \<and>
      t = state_of (run insts es (state_of (step insts (Signal i) s)))"
    then have i: "i < length insts \<and> \<not> development (options (insts ! i))"
      using trigger_sets_flag by blast
    from h have "isShuttingDown t" using flag_run by blast
    with i show "step insts (Signal i) t = Inr t" using trigger_again by blast
  qed
  have "shutdown_once (state_of (run insts es init))"
    by (rule run_invariant [where P = shutdown_once, OF shutdown_once_init shutdown_once_step])
  then have 2: "length (filter is_SetTimeout (trace (state_of (run insts es init)))) \<le> 1
     \<and> length (filter is_OnShutdownCall (trace (state_of (run insts es init)))) \<le> 1
     \<and> length (filter is_DebugDestroyed (trace (state_of (run insts es init)))) \<le> 1
     \<and> length (filter is_ServerClose (trace (state_of (run insts es init)))) \<le> 1"
    by (simp add: shutdown_once_def)
  from 1 2 flag_run show ?thesis by blast
qed

theorem second_trigger_is_noop_witness:
  "step [GracefulShutdown 7 (no_opts \<lparr> opt_onShutdown := PlainFunction \<rparr>)] (Signal 0)
     (state_of (run [GracefulShutdown 7 (no_opts \<lparr> opt_onShutdown := PlainFunction \<rparr>)]
        [Signal 0, HookResolved, Signal 0]
        (state_of (step [GracefulShutdown 7 (no_opts \<lparr> opt_onShutdown := PlainFunction \<rparr>)]
           (Signal 0) init))))
   = Inr (state_of (run [GracefulShutdown 7 (no_opts \<lparr> opt_onShutdown := PlainFunction \<rparr>)]
        [Signal 0, HookResolved, Signal 0]
        (state_of (step [GracefulShutdown 7 (no_opts \<lparr> opt_onShutdown := PlainFunction \<rparr>)]
           (Signal 0) init))))
   \<and> trace (state_of (run [GracefulShutdown 7 (no_opts \<lparr> opt_onShutdown := PlainFunction \<rparr>)]
        [Signal 0, HookResolved, Signal 0]
        (state_of (step [GracefulShutdown 7 (no_opts \<lparr> opt_onShutdown := PlainFunction \<rparr>)]
           (Signal 0) init))))
     = [SetTimeout 30000, OnShutdownCall 0, DebugDestroyed 0, ServerClose 7]
   \<and> isShuttingDown (state_of (run [GracefulShutdown 7 (no_opts \<lparr> opt_onShutdown := PlainFunction \<rparr>)]
        [Signal 0, HookResolved, Signal 0]
        (state_of (step [GracefulShutdown 7 (no_opts \<lparr> opt_onShutdown := PlainFunction \<rparr>)]
           (Signal 0) init))))"
  using second_trigger_is_noop
    [of init "[GracefulShutdown 7 (no_opts \<lparr> opt_onShutdown := PlainFunction \<rparr>)]" 0
        "state_of (run [GracefulShutdown 7 (no_opts \<lparr> opt_onShutdown := PlainFunction \<rparr>)]
           [Signal 0, HookResolved, Signal 0]
           (state_of (step [GracefulShutdown 7 (no_opts \<lparr> opt_onShutdown := PlainFunction \<rparr>)]
              (Signal 0) init)))"
        "[Signal 0, HookResolved, Signal 0]"]
    second_trigger_is_noop
    [of "state_of (step [GracefulShutdown 7 (no_opts \<lparr> opt_onShutdown := PlainFunction \<rparr>)]
           (Signal 0) init)"
        "[GracefulShutdown 7 (no_opts \<lparr> opt_onShutdown := PlainFunction \<rparr>)]" 0
        init "[Signal 0, HookResolved, Signal 0]"]
  by (simp add: example_defs)

section \<open>Busy sockets are left alone\<close>

lemma cleanupHttp_filter_idle:
  assumes "\<And>b. isIdle (sockets s b) \<Longrightarrow> isShuttingDown s \<Longrightarrow> \<not> P (SocketDestroy b)"
  shows "filter P (trace (state_of (cleanupHttp srv s))) =
           filter P (trace s) @
           (case cleanupHttp srv s of
              Inl x \<Rightarrow> []
            | Inr t \<Rightarrow> filter P [DebugDestroyed (length (Object_keys (connections s))),
                                   ServerClose srv])"
proof -
  from cleanupHttp_trace [of s srv] obtain ds where
    idle: "\<forall>a \<in> set ds. isIdle (sockets s a) \<and> isShuttingDown s"
    and ds: "case cleanupHttp srv s of
           Inl (e, t) \<Rightarrow> trace t = trace s @ map SocketDestroy ds \<and> closing t = closing s
         | Inr t \<Rightarrow> trace t = trace s @ map SocketDestroy ds
                       @ [DebugDestroyed (length (Object_keys (connections s))), ServerClose srv]
                    \<and> closing t = closing s @ [srv]"
    by blast
  have none: "filter P (map SocketDestroy ds) = []"
    using idle assms by (auto simp: filter_empty_conv)
  show ?thesis
  proof (cases "cleanupHttp srv s")
    case (Inl x)
    obtain e t where "x = (e, t)" by (cases x)
    with Inl ds none show ?thesis by simp
  next
    case (Inr t)
    with ds none show ?thesis by simp
  qed
qed

lemma trace_step: "\<exists>new. trace (state_of (step insts e s)) = trace s @ new"
proof -
  have c: "\<And>srv u. \<exists>new. trace (state_of (cleanupHttp srv u)) = trace u @ new"
  proof -
    fix srv u
    from cleanupHttp_trace [of u srv] show "\<exists>new. trace (state_of (cleanupHttp srv u)) = trace u @ new"
      by (cases "cleanupHttp srv u") (auto split: prod.splits)
  qed
  show ?thesis
  proof (cases rule: step_cases [of insts e s])
    case (signal_sweep i)
    from c [of "server (insts ! i)"
        "s \<lparr> isShuttingDown := True,
             timers := timers s @ forced_timers (timeout (options (insts ! i))),
             trace := trace s @ map SetTimeout (forced_timers (timeout (options (insts ! i)))) \<rparr>"]
    show ?thesis unfolding signal_sweep(7) by auto
  next
    case (resolved srv rest)
    from c [of srv "s \<lparr> pending := rest \<rparr>"] show ?thesis unfolding resolved(4) by auto
  qed (simp_all add: process_exit_eq)
qed

lemma trace_run:
  "trace (state_of (run insts es s)) = trace s @ new_effects s (state_of (run insts es s))"
proof -
  have "\<exists>new. trace (state_of (run insts es s)) = trace s @ new"
  proof (rule run_invariant [where P = "\<lambda>t::state. \<exists>new. trace t = trace s @ new"])
    show "\<exists>new. trace s = trace s @ new" by simp
  next
    fix e and t :: state assume "\<exists>new. trace t = trace s @ new"
    then obtain new where "trace t = trace s @ new" ..
    moreover from trace_step [of insts e t] obtain new' where
      "trace (state_of (step insts e t)) = trace t @ new'" ..
    ultimately show "\<exists>new. trace (state_of (step insts e t)) = trace s @ new" by simp
  qed
  then show ?thesis by (auto simp: new_effects_def)
qed

lemma new_effects_filter:
  assumes "filter P (trace (state_of (run insts es s))) = filter P (trace s)"
  shows "filter P (new_effects s (state_of (run insts es s))) = []"
proof -
  have "filter P (trace (state_of (run insts es s))) =
          filter P (trace s) @ filter P (new_effects s (state_of (run insts es s)))"
    using trace_run [of insts es s] by (metis filter_append)
  with assms show ?thesis by simp
qed

lemma no_destroy_while_running:
  assumes "\<not> isShuttingDown (state_of (step insts e s))"
  shows "filter is_SocketDestroy (trace (state_of (step insts e s))) =
           filter is_SocketDestroy (trace s)"
proof (cases rule: step_cases [of insts e s])
  case (finish a)
  with assms show ?thesis by simp
next
  case (signal_hook i)
  with assms show ?thesis by simp
next
  case (signal_sweep i)
  with assms show ?thesis by simp
next
  case (resolved srv rest)
  from assms have nf: "\<not> isShuttingDown (s \<lparr> pending := rest \<rparr>)"
    unfolding resolved(4) by simp
  then have "\<And>b. isIdle (sockets (s \<lparr> pending := rest \<rparr>) b) \<Longrightarrow>
          isShuttingDown (s \<lparr> pending := rest \<rparr>) \<Longrightarrow> \<not> is_SocketDestroy (SocketDestroy b)"
    by simp
  from cleanupHttp_filter_idle [of "s \<lparr> pending := rest \<rparr>" is_SocketDestroy srv, OF this]
  show ?thesis unfolding resolved(4) by (simp split: sum.splits)
qed (simp_all add: process_exit_filter)

lemma busy_step:
  assumes "\<not> isIdle (sockets s a)" and "e \<noteq> Finish a" and "e \<noteq> Connection a"
  shows "\<not> isIdle (sockets (state_of (step insts e s)) a) \<and>
         filter ((=) (SocketDestroy a)) (trace (state_of (step insts e s))) =
           filter ((=) (SocketDestroy a)) (trace s)"
proof (cases rule: step_cases [of insts e s])
  case noop
  with assms show ?thesis by simp
next
  case (connection b)
  with assms show ?thesis by (simp add: on_connection_def Let_def)
next
  case (request b)
  with assms show ?thesis by (simp add: on_request_def)
next
  case (finish b)
  with assms show ?thesis by (auto simp: on_finish_def destroy_def)
next
  case (close cid)
  with assms show ?thesis by (simp add: on_close_def)
next
  case (signal_dev i)
  with assms show ?thesis by (simp add: process_exit_filter)
next
  case (signal_hook i)
  with assms show ?thesis by (auto simp: filter_SetTimeout)
next
  case (signal_sweep i)
  let ?s2 = "s \<lparr> isShuttingDown := True,
                 timers := timers s @ forced_timers (timeout (options (insts ! i))),
                 trace := trace s @ map SetTimeout (forced_timers (timeout (options (insts ! i)))) \<rparr>"
  have "\<And>b. isIdle (sockets ?s2 b) \<Longrightarrow> isShuttingDown ?s2 \<Longrightarrow> \<not> SocketDestroy a = SocketDestroy b"
    using assms(1) by auto
  from cleanupHttp_filter_idle [of ?s2 "(=) (SocketDestroy a)" "server (insts ! i)", OF this] assms(1)
  show ?thesis unfolding signal_sweep(7) by (auto simp: filter_SetTimeout split: sum.splits)
next
  case (timer t ts)
  with assms show ?thesis by (simp add: process_exit_filter)
next
  case (resolved srv rest)
  have "\<And>b. isIdle (sockets (s \<lparr> pending := rest \<rparr>) b) \<Longrightarrow> isShuttingDown (s \<lparr> pending := rest \<rparr>)
          \<Longrightarrow> \<not> SocketDestroy a = SocketDestroy b"
    using assms(1) by auto
  from cleanupHttp_filter_idle [of "s \<lparr> pending := rest \<rparr>" "(=) (SocketDestroy a)" srv, OF this]
    assms(1)
  show ?thesis unfolding resolved(4) by (auto split: sum.splits)
next
  case (rejected srv rest)
  with assms show ?thesis by (simp add: process_exit_filter)
next
  case (closed srv rest)
  with assms show ?thesis by (simp add: process_exit_filter)
qed

text \<open>
  Claim C5. Four parts.
  \<^item> \<open>destroy\<close> on a socket whose \<open>_isIdle\<close> flag is false changes nothing.
  \<^item> \<open>destroy\<close> while \<open>isShuttingDown\<close> is false changes nothing.
  \<^item> In every run that ends with the state still RUNNING, no socket was destroyed.
  \<^item> A socket that is busy stays busy and is not destroyed in any run in which none of its
    responses finishes (the only other handler that touches its flag is the \<open>connection\<close>
    handler, which marks a socket it is given as idle; a socket with a request in flight is
    not announced again): a busy socket is reclaimed only after the \<open>finish\<close> event.
\<close>

theorem busy_never_destroyed:
  "(\<not> isIdle (sockets s a) \<longrightarrow> destroy a s = s)
   \<and> (\<not> isShuttingDown s \<longrightarrow> destroy a s = s)
   \<and> (\<not> isShuttingDown (state_of (run insts es s)) \<longrightarrow>
        filter is_SocketDestroy (new_effects s (state_of (run insts es s))) = [])
   \<and> (\<not> isIdle (sockets s a) \<and> Finish a \<notin> set es \<and> Connection a \<notin> set es \<longrightarrow>
        SocketDestroy a \<notin> set (new_effects s (state_of (run insts es s))) \<and>
        \<not> isIdle (sockets (state_of (run insts es s)) a))"
proof -
  have 1: "\<not> isIdle (sockets s a) \<longrightarrow> destroy a s = s" by (simp add: destroy_busy)
  have 2: "\<not> isShuttingDown s \<longrightarrow> destroy a s = s" by (simp add: destroy_running)
  have "\<not> isShuttingDown (state_of (run insts es s)) \<longrightarrow>
          filter is_SocketDestroy (trace (state_of (run insts es s))) =
            filter is_SocketDestroy (trace s)"
  proof (rule run_invariant [where P = "\<lambda>t::state. \<not> isShuttingDown t \<longrightarrow>
      filter is_SocketDestroy (trace t) = filter is_SocketDestroy (trace s)"])
    show "\<not> isShuttingDown s \<longrightarrow> filter is_SocketDestroy (trace s) = filter is_SocketDestroy (trace s)"
      by simp
  next
    fix e and t :: state
    assume inv: "\<not> isShuttingDown t \<longrightarrow>
      filter is_SocketDestroy (trace t) = filter is_SocketDestroy (trace s)"
    show "\<not> isShuttingDown (state_of (step insts e t)) \<longrightarrow>
      filter is_SocketDestroy (trace (state_of (step insts e t))) = filter is_SocketDestroy (trace s)"
    proof
      assume n: "\<not> isShuttingDown (state_of (step insts e t))"
      then have "\<not> isShuttingDown t" using flag_step by blast
      with inv no_destroy_while_running [OF n]
      show "filter is_SocketDestroy (trace (state_of (step insts e t))) =
              filter is_SocketDestroy (trace s)" by simp
    qed
  qed
  then have 3: "\<not> isShuttingDown (state_of (run insts es s)) \<longrightarrow>
        filter is_SocketDestroy (new_effects s (state_of (run insts es s))) = []"
    by (simp add: new_effects_filter)
  have 4: "\<not> isIdle (sockets s a) \<and> Finish a \<notin> set es \<and> Connection a \<notin> set es \<longrightarrow>
        SocketDestroy a \<notin> set (new_effects s (state_of (run insts es s))) \<and>
        \<not> isIdle (sockets (state_of (run insts es s)) a)"
  proof
  assume h: "\<not> isIdle (sockets s a) \<and> Finish a \<notin> set es \<and> Connection a \<notin> set es"
  have inv: "\<not> isIdle (sockets (state_of (run insts es s)) a) \<and>
         filter ((=) (SocketDestroy a)) (trace (state_of (run insts es s))) =
           filter ((=) (SocketDestroy a)) (trace s)"
  proof (rule run_invariant_on [where P = "\<lambda>t::state. \<not> isIdle (sockets t a) \<and>
         filter ((=) (SocketDestroy a)) (trace t) = filter ((=) (SocketDestroy a)) (trace s)"])
    show "\<not> isIdle (sockets s a) \<and>
      filter ((=) (SocketDestroy a)) (trace s) = filter ((=) (SocketDestroy a)) (trace s)"
      using h by simp
  next
    fix e and t :: state
    assume e: "e \<in> set es"
      and t: "\<not> isIdle (sockets t a) \<and>
        filter ((=) (SocketDestroy a)) (trace t) = filter ((=) (SocketDestroy a)) (trace s)"
    from e h have "e \<noteq> Finish a" "e \<noteq> Connection a" by auto
    from busy_step [OF _ this, of t insts] t
    show "\<not> isIdle (sockets (state_of (step insts e t)) a) \<and>
        filter ((=) (SocketDestroy a)) (trace (state_of (step insts e t))) =
          filter ((=) (SocketDestroy a)) (trace s)" by simp
  qed
  then have "filter ((=) (SocketDestroy a)) (new_effects s (state_of (run insts es s))) = []"
    by (simp add: new_effects_filter)
  then have "SocketDestroy a \<notin> set (new_effects s (state_of (run insts es s)))"
    by (auto simp: filter_empty_conv)
  with inv show "SocketDestroy a \<notin> set (new_effects s (state_of (run insts es s))) \<and>
        \<not> isIdle (sockets (state_of (run insts es s)) a)" by simp
  qed
  from 1 2 3 4 show ?thesis by blast
qed

theorem busy_never_destroyed_witness:
  "destroy 3 (state_of (run [GracefulShutdown 7 (no_opts \<lparr> opt_onShutdown := PlainFunction \<rparr>)]
                 [Connection 3, Request 3, Signal 0] init))
     = state_of (run [GracefulShutdown 7 (no_opts \<lparr> opt_onShutdown := PlainFunction \<rparr>)]
                 [Connection 3, Request 3, Signal 0] init)
   \<and> destroy 3 (on_connection 3 init) = on_connection 3 init
   \<and> new_effects (on_connection 3 init)
         (state_of (run [GracefulShutdown 7 no_opts] [Request 3, Finish 3] (on_connection 3 init)))
       = []
   \<and> new_effects (on_request 3 (on_connection 3 init))
         (state_of (run [GracefulShutdown 7 (no_opts \<lparr> opt_onShutdown := PlainFunction \<rparr>)]
            [Signal 0, HookResolved, Connection 4, Finish 4] (on_request 3 (on_connection 3 init))))
       = [SetTimeout 30000, OnShutdownCall 0, DebugDestroyed 1, ServerClose 7, SocketDestroy 4]
   \<and> connections (state_of (run [GracefulShutdown 7 (no_opts \<lparr> opt_onShutdown := PlainFunction \<rparr>)]
            [Signal 0, HookResolved, Connection 4, Finish 4] (on_request 3 (on_connection 3 init))))
       = [(0, 3)]"
  using busy_never_destroyed
    [of "state_of (run [GracefulShutdown 7 (no_opts \<lparr> opt_onShutdown := PlainFunction \<rparr>)]
                 [Connection 3, Request 3, Signal 0] init)" 3 "[]" "[]"]
    busy_never_destroyed
    [of "on_connection 3 init" 3 "[GracefulShutdown 7 no_opts]" "[Request 3, Finish 3]"]
    busy_never_destroyed
    [of "on_request 3 (on_connection 3 init)" 3
        "[GracefulShutdown 7 (no_opts \<lparr> opt_onShutdown := PlainFunction \<rparr>)]"
        "[Signal 0, HookResolved, Connection 4, Finish 4]"]
  by (simp add: example_defs new_effects_def)

section \<open>The \<open>finally\<close> callback\<close>

lemma finally_instances_once:
  assumes "j < length insts" and "finally_cb (options (insts ! j)) = PlainFunction"
  shows "count_list (finally_instances insts) j = 1"
proof -
  have d: "distinct (finally_instances insts)" by (simp add: finally_instances_def)
  have m: "j \<in> set (finally_instances insts)" using assms by (simp add: finally_instances_def)
  have "{x. j = x} \<inter> set (finally_instances insts) = {j}" using m by auto
  then show ?thesis
    using distinct_length_filter [OF d, of "(=) j"] by (simp add: count_list_eq_length_filter)
qed

lemma count_FinallyCall [simp]:
  "count_list (map FinallyCall js) (FinallyCall j) = count_list js j"
  by (rule count_list_map_conv) (simp add: inj_def)

lemma count_process_exit:
  "count_list (trace (process_exit insts code s)) (FinallyCall j) =
     count_list (trace s) (FinallyCall j) + count_list (finally_instances insts) j"
  by (simp add: process_exit_eq)

lemma count_cleanupHttp:
  "count_list (trace (state_of (cleanupHttp srv s))) (FinallyCall j) =
     count_list (trace s) (FinallyCall j)"
  using cleanupHttp_filter [of "(=) (FinallyCall j)" srv s]
  by (simp add: count_list_eq_length_filter split: sum.splits)

lemma count_SetTimeout [simp]: "count_list (map SetTimeout ts) (FinallyCall j) = 0"
  by (induction ts) auto

lemma finally_step:
  assumes "j < length insts" and "finally_cb (options (insts ! j)) = PlainFunction"
    and "count_list (trace s) (FinallyCall j) = (if exited s = None then 0 else 1)"
  shows "count_list (trace (state_of (step insts e s))) (FinallyCall j) =
           (if exited (state_of (step insts e s)) = None then 0 else 1)"
proof (cases rule: step_cases [of insts e s])
  case noop
  with assms(3) show ?thesis by simp
next
  case (signal_sweep i)
  with assms(3) show ?thesis by (simp add: count_cleanupHttp)
next
  case (resolved srv rest)
  with assms(3) show ?thesis by (simp add: count_cleanupHttp)
qed (use assms in \<open>simp_all add: count_process_exit finally_instances_once\<close>)

text \<open>
  Claim C8. For an instance whose \<open>finally\<close> option is a plain function:
  \<^item> in every run of the process from its initial state, the callback has been called
    exactly once when the process has exited, and not at all while it is alive;
  \<^item> the callback occurs exactly once among the calls that an exit makes;
  \<^item> each of the three exits (the development trigger with status 0, the timer with status
    1, the callback of \<open>server.close\<close> with status 0) makes those calls in the same step,
    right after \<open>process.exit\<close>.
\<close>

theorem finally_called_once:
  assumes "j < length insts" and "finally_cb (options (insts ! j)) = PlainFunction"
  shows "count_list (trace (state_of (run insts es init))) (FinallyCall j) =
           (if exited (state_of (run insts es init)) = None then 0 else 1)
       \<and> count_list (finally_instances insts) j = 1
       \<and> (exited u = None \<and> i < length insts \<and> development (options (insts ! i)) \<longrightarrow>
            step insts (Signal i) u =
              Inr (u \<lparr> trace := trace u @ ProcessExit 0 # map FinallyCall (finally_instances insts),
                       exited := Some 0 \<rparr>))
       \<and> (exited u = None \<and> timers u = t # ts \<longrightarrow>
            step insts TimerFired u =
              Inr (u \<lparr> timers := ts,
                       trace := trace u @ ProcessExit 1 # map FinallyCall (finally_instances insts),
                       exited := Some 1 \<rparr>))
       \<and> (exited u = None \<and> closing u = srv # rest \<longrightarrow>
            step insts ServerClosed u =
              Inr (u \<lparr> closing := rest,
                       trace := trace u @ ProcessExit 0 # map FinallyCall (finally_instances insts),
                       exited := Some 0 \<rparr>))"
proof -
  have 1: "count_list (trace (state_of (run insts es init))) (FinallyCall j) =
           (if exited (state_of (run insts es init)) = None then 0 else 1)"
  proof (rule run_invariant [where P = "\<lambda>t::state. count_list (trace t) (FinallyCall j) =
           (if exited t = None then 0 else 1)"])
    show "count_list (trace init) (FinallyCall j) = (if exited init = None then 0 else 1)"
      by (simp add: init_def)
  next
    fix e and t :: state
    assume "count_list (trace t) (FinallyCall j) = (if exited t = None then 0 else 1)"
    then show "count_list (trace (state_of (step insts e t))) (FinallyCall j) =
           (if exited (state_of (step insts e t)) = None then 0 else 1)"
      by (rule finally_step [OF assms])
  qed
  have 2: "count_list (finally_instances insts) j = 1"
    by (rule finally_instances_once [OF assms])
  have 3: "exited u = None \<and> i < length insts \<and> development (options (insts ! i)) \<longrightarrow>
            step insts (Signal i) u =
              Inr (u \<lparr> trace := trace u @ ProcessExit 0 # map FinallyCall (finally_instances insts),
                       exited := Some 0 \<rparr>)"
    by (simp add: step_def shutdown_development process_exit_eq)
  have 4: "exited u = None \<and> timers u = t # ts \<longrightarrow>
            step insts TimerFired u =
              Inr (u \<lparr> timers := ts,
                       trace := trace u @ ProcessExit 1 # map FinallyCall (finally_instances insts),
                       exited := Some 1 \<rparr>)"
    by (simp add: step_def process_exit_eq)
  have 5: "exited u = None \<and> closing u = srv # rest \<longrightarrow>
            step insts ServerClosed u =
              Inr (u \<lparr> closing := rest,
                       trace := trace u @ ProcessExit 0 # map FinallyCall (finally_instances insts),
                       exited := Some 0 \<rparr>)"
    by (simp add: step_def process_exit_eq)
  from 1 2 3 4 5 show ?thesis by blast
qed

theorem finally_called_once_witness:
  "trace (state_of (run [GracefulShutdown 7 (no_opts \<lparr> opt_finally := PlainFunction \<rparr>)]
       [Signal 0, ServerClosed, TimerFired, Signal 0] init))
     = [SetTimeout 30000, DebugDestroyed 0, ServerClose 7, ProcessExit 0, FinallyCall 0]
   \<and> trace (state_of (step [GracefulShutdown 7 (no_opts \<lparr> opt_finally := PlainFunction \<rparr>)] TimerFired
       (state_of (step [GracefulShutdown 7 (no_opts \<lparr> opt_finally := PlainFunction \<rparr>)] (Signal 0) init))))
     = [SetTimeout 30000, DebugDestroyed 0, ServerClose 7, ProcessExit 1, FinallyCall 0]
   \<and> trace (state_of (step [GracefulShutdown 7 (no_opts \<lparr> opt_finally := PlainFunction \<rparr>)] ServerClosed
       (state_of (step [GracefulShutdown 7 (no_opts \<lparr> opt_finally := PlainFunction \<rparr>)] (Signal 0) init))))
     = [SetTimeout 30000, DebugDestroyed 0, ServerClose 7, ProcessExit 0, FinallyCall 0]
   \<and> trace (state_of (step [GracefulShutdown 7 (no_opts \<lparr> opt_finally := PlainFunction,
                                                         opt_development := Some True \<rparr>)]
       (Signal 0) init))
     = [ProcessExit 0, FinallyCall 0]"
  using finally_called_once
    [of 0 "[GracefulShutdown 7 (no_opts \<lparr> opt_finally := PlainFunction \<rparr>)]"
        "[Signal 0, ServerClosed, TimerFired, Signal 0]"
        "state_of (step [GracefulShutdown 7 (no_opts \<lparr> opt_finally := PlainFunction \<rparr>)] (Signal 0) init)"
        0 30000 "[]" 7 "[]"]
    finally_called_once
    [of 0 "[GracefulShutdown 7 (no_opts \<lparr> opt_finally := PlainFunction,
                                          opt_development := Some True \<rparr>)]"
        "[]" init 0]
  by (simp add: example_defs finally_instances_def)

section \<open>One counter and one flag for all instances\<close>

lemma counter_step:
  "connectionCounter s \<le> connectionCounter (state_of (step insts e s))"
  by (cases rule: step_cases [of insts e s])
     (simp_all add: on_connection_def on_request_def on_finish_def on_close_def Let_def
        process_exit_eq)

lemma counter_connection:
  "exited s = None \<Longrightarrow>
     connectionCounter (state_of (step insts (Connection a) s)) = Suc (connectionCounter s)"
  by (simp add: step_def on_connection_def Let_def)

lemma assigned_ids_ge:
  "\<forall>k \<in> set (assigned_ids insts es s). connectionCounter s \<le> k"
proof (induction es arbitrary: s)
  case Nil
  show ?case by simp
next
  case (Cons e es)
  have tail: "\<forall>k \<in> set (case step insts e s of Inl x \<Rightarrow> [] | Inr s' \<Rightarrow> assigned_ids insts es s').
                connectionCounter s \<le> k"
  proof (cases "step insts e s")
    case (Inl x)
    then show ?thesis by simp
  next
    case (Inr s')
    with counter_step [of s insts e] have "connectionCounter s \<le> connectionCounter s'" by simp
    with Cons.IH [of s'] Inr show ?thesis by auto
  qed
  then show ?case by (auto split: event.splits)
qed

lemma assigned_ids_increasing: "sorted_wrt (<) (assigned_ids insts es s)"
proof (induction es arbitrary: s)
  case Nil
  show ?case by simp
next
  case (Cons e es)
  show ?case
  proof (cases "step insts e s")
    case (Inl x)
    then show ?thesis by (simp split: event.splits)
  next
    case (Inr s')
    note ih = Cons.IH [of s']
    show ?thesis
    proof (cases "\<exists>a. e = Connection a \<and> exited s = None")
      case True
      then obtain a where e: "e = Connection a" and alive: "exited s = None" by blast
      from counter_connection [OF alive, of insts a] Inr e
      have "connectionCounter s' = Suc (connectionCounter s)" by simp
      with assigned_ids_ge [of insts es s']
      have "\<forall>k \<in> set (assigned_ids insts es s'). connectionCounter s < k" by auto
      with ih Inr e alive show ?thesis by simp
    next
      case False
      with ih Inr show ?thesis by (auto split: event.splits)
    qed
  qed
qed

text \<open>
  Claim C9. The state has one flag, one registry and one counter, and the handlers of the
  \<open>connection\<close>, \<open>request\<close>, \<open>finish\<close> and \<open>close\<close> events do not depend on the
  instance that installed them. On this state:
  \<^item> the \<open>connection\<close> handler, of whichever instance, gives the socket the current value
    of the counter as its id, stores it in the registry under that id and adds one to the
    counter;
  \<^item> the ids handed out in a run, from any state and under any events, are strictly
    increasing, hence pairwise distinct: no id is used twice;
  \<^item> a trigger of any instance that is not in development mode leaves the flag set;
  \<^item> with the flag set, a trigger of any other such instance does nothing, and the
    \<open>finish\<close> handler of any socket destroys the socket: all instances see the one flag.
  (A trigger of an instance in development mode exits the process, see C7.)
\<close>

theorem shared_counter_and_flag:
  "(exited s = None \<longrightarrow>
      (\<exists>s'. step insts (Connection a) s = Inr s'
         \<and> connectionId (sockets s' a) = Some (connectionCounter s)
         \<and> map_of (connections s') (connectionCounter s) = Some a
         \<and> connectionCounter s' = Suc (connectionCounter s)))
   \<and> sorted_wrt (<) (assigned_ids insts es s)
   \<and> distinct (assigned_ids insts es s)
   \<and> (exited s = None \<and> i < length insts \<and> \<not> development (options (insts ! i)) \<longrightarrow>
        isShuttingDown (state_of (step insts (Signal i) s)))
   \<and> (isShuttingDown s \<and> j < length insts \<and> \<not> development (options (insts ! j)) \<longrightarrow>
        step insts (Signal j) s = Inr s)
   \<and> (isShuttingDown s \<and> exited s = None \<longrightarrow>
        trace (state_of (step insts (Finish a) s)) = trace s @ [SocketDestroy a])"
proof -
  have 1: "exited s = None \<longrightarrow>
      (\<exists>s'. step insts (Connection a) s = Inr s'
         \<and> connectionId (sockets s' a) = Some (connectionCounter s)
         \<and> map_of (connections s') (connectionCounter s) = Some a
         \<and> connectionCounter s' = Suc (connectionCounter s))"
    by (simp add: step_def on_connection_def Let_def update_conv)
  have 2: "sorted_wrt (<) (assigned_ids insts es s)" by (rule assigned_ids_increasing)
  then have 3: "distinct (assigned_ids insts es s)" by (simp add: strict_sorted_iff)
  have 4: "exited s = None \<and> i < length insts \<and> \<not> development (options (insts ! i)) \<longrightarrow>
        isShuttingDown (state_of (step insts (Signal i) s))"
  proof
    assume h: "exited s = None \<and> i < length insts \<and> \<not> development (options (insts ! i))"
    then have st: "step insts (Signal i) s = shutdown insts i s" by (simp add: step_def)
    show "isShuttingDown (state_of (step insts (Signal i) s))"
    proof (cases "isShuttingDown s")
      case True
      with h st show ?thesis by (simp add: shutdown_again)
    next
      case False
      with h st show ?thesis
        by (cases "onShutdown (options (insts ! i)) = PlainFunction")
           (simp_all add: shutdown_hook shutdown_no_hook)
    qed
  qed
  have 5: "isShuttingDown s \<and> j < length insts \<and> \<not> development (options (insts ! j)) \<longrightarrow>
        step insts (Signal j) s = Inr s"
    using trigger_again by blast
  have 6: "isShuttingDown s \<and> exited s = None \<longrightarrow>
        trace (state_of (step insts (Finish a) s)) = trace s @ [SocketDestroy a]"
    by (simp add: step_def)
  from 1 2 3 4 5 6 show ?thesis by blast
qed

theorem shared_counter_and_flag_witness:
  "assigned_ids [GracefulShutdown 7 no_opts, GracefulShutdown 8 (no_opts \<lparr> opt_onShutdown := PlainFunction \<rparr>)]
     [Connection 3, Connection 4, Close 0, Connection 5, Close 2, Connection 3] init
     = [0, 1, 2, 3]
   \<and> connectionId (sockets (state_of (step
        [GracefulShutdown 7 no_opts, GracefulShutdown 8 (no_opts \<lparr> opt_onShutdown := PlainFunction \<rparr>)]
        (Connection 4) (on_connection 3 init))) 4) = Some 1
   \<and> step [GracefulShutdown 7 no_opts, GracefulShutdown 8 (no_opts \<lparr> opt_onShutdown := PlainFunction \<rparr>)]
        (Signal 0)
        (state_of (step
          [GracefulShutdown 7 no_opts, GracefulShutdown 8 (no_opts \<lparr> opt_onShutdown := PlainFunction \<rparr>)]
          (Signal 1) (on_connection 3 init)))
     = Inr (state_of (step
          [GracefulShutdown 7 no_opts, GracefulShutdown 8 (no_opts \<lparr> opt_onShutdown := PlainFunction \<rparr>)]
          (Signal 1) (on_connection 3 init)))
   \<and> trace (state_of (step
        [GracefulShutdown 7 no_opts, GracefulShutdown 8 (no_opts \<lparr> opt_onShutdown := PlainFunction \<rparr>)]
        (Finish 3)
        (state_of (step
          [GracefulShutdown 7 no_opts, GracefulShutdown 8 (no_opts \<lparr> opt_onShutdown := PlainFunction \<rparr>)]
          (Signal 1) (on_connection 3 init)))))
     = [SetTimeout 30000, OnShutdownCall 1, SocketDestroy 3]"
  using shared_counter_and_flag
    [of "on_connection 3 init"
        "[GracefulShutdown 7 no_opts, GracefulShutdown 8 (no_opts \<lparr> opt_onShutdown := PlainFunction \<rparr>)]"
        4 "[]" 1 0]
    shared_counter_and_flag
    [of "state_of (step
          [GracefulShutdown 7 no_opts, GracefulShutdown 8 (no_opts \<lparr> opt_onShutdown := PlainFunction \<rparr>)]
          (Signal 1) (on_connection 3 init))"
        "[GracefulShutdown 7 no_opts, GracefulShutdown 8 (no_opts \<lparr> opt_onShutdown := PlainFunction \<rparr>)]"
        3 "[]" 1 0]
    shared_counter_and_flag
    [of init
        "[GracefulShutdown 7 no_opts, GracefulShutdown 8 (no_opts \<lparr> opt_onShutdown := PlainFunction \<rparr>)]"
        3 "[Connection 3, Connection 4, Close 0, Connection 5, Close 2, Connection 3]" 1 0]
  by (simp add: example_defs)

section \<open>A hook whose promise rejects\<close>

lemma run_exited: "exited s \<noteq> None \<Longrightarrow> run insts es s = Inr s"
  by (induction es) (simp_all add: step_def)

text \<open>
  Claim C10 as stated, at an input where it fails. The instance has an \<open>onShutdown\<close>
  function and a timeout of zero, so the trigger sets no timer; the promise of the hook
  rejects. The rejection is not swallowed and it is not the timer that ends the process:
  with no timer outstanding, the process has exited with status 1 right after the
  rejection.
\<close>

theorem rejection_ends_process_without_timer:
  "run [GracefulShutdown 7 (no_opts \<lparr> opt_onShutdown := PlainFunction, opt_timeout := Some 0 \<rparr>)]
     [Signal 0, HookRejected] init
   = Inr \<lparr> isShuttingDown = True, connections = [], connectionCounter = 0,
           sockets = (\<lambda>_. \<lparr> isIdle = False, connectionId = None \<rparr>),
           timers = [], pending = [], closing = [], exited = Some 1,
           trace = [OnShutdownCall 0, ProcessExit 1] \<rparr>"
  by (simp add: example_defs)

text \<open>
  Claim C10 as amended. The process is alive and the \<open>then\<close> callback of a hook waits
  (the promise has not settled). When the promise rejects, whatever events \<open>es\<close> follow:
  \<^item> the run returns, in the state before with the waiting callback dropped, the exit
    status 1 set and the trace extended by \<open>process.exit(1)\<close> and the \<open>finally\<close> calls
    of the exit handlers, and by nothing else: the timer plays no part, and the later
    events change nothing;
  \<^item> so since the rejection no socket was destroyed, \<open>cleanupHttp\<close> has reported no count
    and has not called \<open>server.close\<close>, and there was no exit with status 0.
\<close>

theorem rejected_hook_exits:
  assumes "exited u = None" and "pending u = srv # rest"
  shows "run insts (HookRejected # es) u =
           Inr (u \<lparr> pending := rest,
                    trace := trace u @ ProcessExit 1 # map FinallyCall (finally_instances insts),
                    exited := Some 1 \<rparr>)
       \<and> new_effects u (state_of (run insts (HookRejected # es) u)) =
           ProcessExit 1 # map FinallyCall (finally_instances insts)
       \<and> filter is_SocketDestroy (new_effects u (state_of (run insts (HookRejected # es) u))) = []
       \<and> filter is_DebugDestroyed (new_effects u (state_of (run insts (HookRejected # es) u))) = []
       \<and> filter is_ServerClose (new_effects u (state_of (run insts (HookRejected # es) u))) = []
       \<and> ProcessExit 0 \<notin> set (new_effects u (state_of (run insts (HookRejected # es) u)))"
proof -
  let ?t = "u \<lparr> pending := rest,
               trace := trace u @ ProcessExit 1 # map FinallyCall (finally_instances insts),
               exited := Some 1 \<rparr>"
  have st: "step insts HookRejected u = Inr ?t"
    using assms by (simp add: step_def process_exit_eq)
  have "run insts es ?t = Inr ?t" by (rule run_exited) simp
  with st have 1: "run insts (HookRejected # es) u = Inr ?t" by simp
  then have 2: "new_effects u (state_of (run insts (HookRejected # es) u)) =
           ProcessExit 1 # map FinallyCall (finally_instances insts)"
    by (simp add: new_effects_def)
  have 3: "filter is_SocketDestroy (new_effects u (state_of (run insts (HookRejected # es) u))) = []"
    unfolding 2 by (simp add: filter_FinallyCall)
  have 4: "filter is_DebugDestroyed (new_effects u (state_of (run insts (HookRejected # es) u))) = []"
    unfolding 2 by (simp add: filter_FinallyCall)
  have 5: "filter is_ServerClose (new_effects u (state_of (run insts (HookRejected # es) u))) = []"
    unfolding 2 by (simp add: filter_FinallyCall)
  have 6: "ProcessExit 0 \<notin> set (new_effects u (state_of (run insts (HookRejected # es) u)))"
    unfolding 2 by auto
  from 1 2 3 4 5 6 show ?thesis by blast
qed

theorem rejected_hook_exits_witness:
  "run [GracefulShutdown 7 (no_opts \<lparr> opt_onShutdown := PlainFunction, opt_finally := PlainFunction \<rparr>)]
     (HookRejected # [HookResolved, ServerClosed, Finish 3, TimerFired, Signal 0])
     (state_of (step
        [GracefulShutdown 7 (no_opts \<lparr> opt_onShutdown := PlainFunction, opt_finally := PlainFunction \<rparr>)]
        (Signal 0) (on_connection 3 init)))
   = Inr \<lparr> isShuttingDown = True, connections = [(0, 3)], connectionCounter = 1,
           sockets = (\<lambda>_. \<lparr> isIdle = False, connectionId = None \<rparr>)
                       (3 := \<lparr> isIdle = True, connectionId = Some 0 \<rparr>),
           timers = [30000], pending = [], closing = [], exited = Some 1,
           trace = [SetTimeout 30000, OnShutdownCall 0, ProcessExit 1, FinallyCall 0] \<rparr>
   \<and> new_effects
        (state_of (step
           [GracefulShutdown 7 (no_opts \<lparr> opt_onShutdown := PlainFunction, opt_finally := PlainFunction \<rparr>)]
           (Signal 0) (on_connection 3 init)))
        (state_of (run
           [GracefulShutdown 7 (no_opts \<lparr> opt_onShutdown := PlainFunction, opt_finally := PlainFunction \<rparr>)]
           (HookRejected # [HookResolved, ServerClosed, Finish 3, TimerFired, Signal 0])
           (state_of (step
              [GracefulShutdown 7 (no_opts \<lparr> opt_onShutdown := PlainFunction, opt_finally := PlainFunction \<rparr>)]
              (Signal 0) (on_connection 3 init)))))
     = [ProcessExit 1, FinallyCall 0]"
  using rejected_hook_exits
    [of "state_of (step
           [GracefulShutdown 7 (no_opts \<lparr> opt_onShutdown := PlainFunction, opt_finally := PlainFunction \<rparr>)]
           (Signal 0) (on_connection 3 init))"
        7 "[]"
        "[GracefulShutdown 7 (no_opts \<lparr> opt_onShutdown := PlainFunction, opt_finally := PlainFunction \<rparr>)]"
        "[HookResolved, ServerClosed, Finish 3, TimerFired, Signal 0]"]
  by (simp add: example_defs finally_instances_def new_effects_def)

section \<open>No handler throws when every socket is announced once\<close>

text \<open>
  The statements on \<open>cleanupHttp\<close> above ask for a consistent registry. Every state that
  the process reaches from its initial state has one, and no handler throws on the way,
  when the \<open>connection\<close> handler is never given a socket that is in the registry at that
  moment. (Two instances on one server break this: the socket gets two ids, the loop of
  \<open>cleanupHttp\<close> destroys it under the first key, which deletes the second, and the lookup
  of the second key then yields \<open>undefined\<close>.)
\<close>

lemma registry_ok_shrink:
  assumes "registry_ok s" and "set (connections t) \<subseteq> set (connections s)"
    and "distinct (map fst (connections t))"
    and "\<And>a. connectionId (sockets t a) = connectionId (sockets s a)"
    and "connectionCounter s \<le> connectionCounter t"
  shows "registry_ok t"
  using assms by (fastforce simp: registry_ok_def registry_consistent_def list_all_iff)

lemma registry_ok_destroy:
  assumes "registry_ok s"
  shows "registry_ok (destroy a s)"
proof (rule registry_ok_shrink [OF assms])
  show "set (connections (destroy a s)) \<subseteq> set (connections s)"
    by (auto simp: destroy_def delete_connection_def AList.delete_eq split: option.splits)
  show "distinct (map fst (connections (destroy a s)))"
    using assms
    by (auto simp: destroy_def delete_connection_def registry_ok_def registry_consistent_def
          distinct_delete split: option.splits)
qed simp_all

lemma registry_ok_sweep:
  "registry_ok s \<Longrightarrow> registry_ok (sweep_state (forEach_destroy ks c s))"
proof (induction ks arbitrary: c s)
  case Nil
  then show ?case by simp
next
  case (Cons k ks)
  show ?case
  proof (cases "map_of (connections s) k")
    case None
    with Cons.prems show ?thesis by simp
  next
    case (Some a)
    from Cons.IH [OF registry_ok_destroy [OF Cons.prems, of a], of "Suc c"] Some
    show ?thesis by simp
  qed
qed

lemma registry_ok_cleanupHttp:
  assumes "registry_ok s"
  shows "registry_ok (state_of (cleanupHttp srv s))"
proof -
  let ?r = "forEach_destroy (Object_keys (connections s)) 0 s"
  have ok: "registry_ok (sweep_state ?r)" by (rule registry_ok_sweep [OF assms])
  show ?thesis
  proof (cases ?r)
    case (Inl x)
    obtain e t where "x = (e, t)" by (cases x)
    with Inl ok show ?thesis by (simp add: cleanupHttp_def)
  next
    case (Inr y)
    obtain c t where y: "y = (c, t)" by (cases y)
    with Inr ok have t: "registry_ok t" by simp
    have "registry_ok (t \<lparr> trace := trace t @ [DebugDestroyed c, ServerClose srv],
                            closing := closing t @ [srv] \<rparr>)"
    proof (rule registry_ok_shrink [OF t])
      show "distinct (map fst (connections (t \<lparr> trace := trace t @ [DebugDestroyed c, ServerClose srv],
                                                closing := closing t @ [srv] \<rparr>)))"
        using t by (simp add: registry_ok_def registry_consistent_def)
    qed simp_all
    with Inr y show ?thesis by (simp add: cleanupHttp_def)
  qed
qed

lemma update_fresh: "k \<notin> fst ` set al \<Longrightarrow> AList.update k v al = al @ [(k, v)]"
  by (induction al) auto

lemma registry_ok_connection:
  assumes "registry_ok s" and "a \<notin> snd ` set (connections s)"
  shows "registry_ok (on_connection a s)"
proof -
  let ?c = "connectionCounter s"
  have fresh: "?c \<notin> fst ` set (connections s)"
    using assms(1) by (auto simp: registry_ok_def list_all_iff)
  then have upd: "AList.update ?c a (connections s) = connections s @ [(?c, a)]"
    by (rule update_fresh)
  have other: "\<And>k b. (k, b) \<in> set (connections s) \<Longrightarrow> b \<noteq> a"
    using assms(2) by force
  show ?thesis
    using assms(1) fresh other
    by (auto simp: registry_ok_def registry_consistent_def list_all_iff on_connection_def Let_def
          upd image_iff less_Suc_eq)
qed

lemma registry_ok_fields:
  assumes "registry_ok s" and "connections t = connections s"
    and "\<And>a. connectionId (sockets t a) = connectionId (sockets s a)"
    and "connectionCounter t = connectionCounter s"
  shows "registry_ok t"
  using assms by (intro registry_ok_shrink [OF assms(1)]) (simp_all add: registry_ok_def registry_consistent_def)

lemma registry_ok_step:
  assumes "registry_ok s" and "\<forall>a. e = Connection a \<longrightarrow> a \<notin> snd ` set (connections s)"
  shows "registry_ok (state_of (step insts e s))"
proof (cases rule: step_cases [of insts e s])
  case noop
  with assms(1) show ?thesis by simp
next
  case (connection a)
  with assms show ?thesis by (simp add: registry_ok_connection)
next
  case (request a)
  have "registry_ok (on_request a s)"
    by (rule registry_ok_fields [OF assms(1)]) (simp_all add: on_request_def)
  with request show ?thesis by simp
next
  case (finish a)
  have "registry_ok (s \<lparr> sockets := (sockets s)(a := (sockets s a) \<lparr> isIdle := True \<rparr>) \<rparr>)"
    by (rule registry_ok_fields [OF assms(1)]) simp_all
  then have "registry_ok (on_finish a s)"
    unfolding on_finish_def by (rule registry_ok_destroy)
  with finish show ?thesis by simp
next
  case (close cid)
  have "registry_ok (on_close cid s)"
  proof (rule registry_ok_shrink [OF assms(1)])
    show "set (connections (on_close cid s)) \<subseteq> set (connections s)"
      by (auto simp: on_close_def AList.delete_eq)
    show "distinct (map fst (connections (on_close cid s)))"
      using assms(1) by (simp add: on_close_def registry_ok_def registry_consistent_def distinct_delete)
  qed (simp_all add: on_close_def)
  with close show ?thesis by simp
next
  case (signal_dev i)
  have "registry_ok (process_exit insts 0 s)"
    by (rule registry_ok_fields [OF assms(1)]) simp_all
  with signal_dev show ?thesis by simp
next
  case (signal_hook i)
  show ?thesis unfolding signal_hook(7)
    by (simp, rule registry_ok_fields [OF assms(1)]) simp_all
next
  case (signal_sweep i)
  show ?thesis unfolding signal_sweep(7)
    by (rule registry_ok_cleanupHttp, rule registry_ok_fields [OF assms(1)]) simp_all
next
  case (timer t ts)
  have "registry_ok (process_exit insts 1 (s \<lparr> timers := ts \<rparr>))"
    by (rule registry_ok_fields [OF assms(1)]) simp_all
  with timer show ?thesis by simp
next
  case (resolved srv rest)
  show ?thesis unfolding resolved(4)
    by (rule registry_ok_cleanupHttp, rule registry_ok_fields [OF assms(1)]) simp_all
next
  case (rejected srv rest)
  have "registry_ok (process_exit insts 1 (s \<lparr> pending := rest \<rparr>))"
    by (rule registry_ok_fields [OF assms(1)]) simp_all
  with rejected show ?thesis by simp
next
  case (closed srv rest)
  have "registry_ok (process_exit insts 0 (s \<lparr> closing := rest \<rparr>))"
    by (rule registry_ok_fields [OF assms(1)]) simp_all
  with closed show ?thesis by simp
qed

lemma sweep_running:
  assumes "\<not> isShuttingDown s" and "set ks \<subseteq> fst ` set (connections s)"
  shows "forEach_destroy ks c s = Inr (c + length ks, s)"
  using assms(2)
proof (induction ks arbitrary: c)
  case Nil
  show ?case by simp
next
  case (Cons k ks)
  from Cons.prems obtain a where "map_of (connections s) k = Some a"
    by (cases "map_of (connections s) k") (auto simp: map_of_eq_None_iff)
  moreover have "destroy a s = s" by (rule destroy_running [OF assms(1)])
  moreover from Cons.prems have "set ks \<subseteq> fst ` set (connections s)" by simp
  ultimately show ?case using Cons.IH [of "Suc c"] by simp
qed

lemma cleanupHttp_returns:
  assumes "registry_ok s"
  shows "\<exists>t. cleanupHttp srv s = Inr t"
proof (cases "isShuttingDown s")
  case True
  from cleanupHttp_consistent [OF True, of srv] assms show ?thesis
    by (auto simp: registry_ok_def)
next
  case False
  have "set (Object_keys (connections s)) \<subseteq> fst ` set (connections s)"
    by (simp add: Object_keys_def)
  from sweep_running [OF False this, of 0] show ?thesis by (simp add: cleanupHttp_def)
qed

lemma step_returns:
  assumes "registry_ok s"
  shows "\<exists>t. step insts e s = Inr t"
proof (cases rule: step_cases [of insts e s])
  case (signal_sweep i)
  show ?thesis unfolding signal_sweep(7)
    by (rule cleanupHttp_returns, rule registry_ok_fields [OF assms]) simp_all
next
  case (resolved srv rest)
  show ?thesis unfolding resolved(4)
    by (rule cleanupHttp_returns, rule registry_ok_fields [OF assms]) simp_all
qed simp_all

lemma registry_ok_init: "registry_ok init"
  by (simp add: registry_ok_def registry_consistent_def init_def)

lemma run_returns:
  assumes "registry_ok s" and "announced_once insts es s"
  shows "\<exists>t. run insts es s = Inr t \<and> registry_ok t"
  using assms
proof (induction es arbitrary: s)
  case Nil
  then show ?case by simp
next
  case (Cons e es)
  from step_returns [OF Cons.prems(1), where insts = insts and e = e] obtain s' where s': "step insts e s = Inr s'" ..
  have "\<forall>a. e = Connection a \<longrightarrow> a \<notin> snd ` set (connections s)"
    using Cons.prems(2) by force
  from registry_ok_step [OF Cons.prems(1) this, where insts = insts] s' have ok: "registry_ok s'" by simp
  from Cons.prems(2) s' have "announced_once insts es s'" by simp
  from Cons.IH [OF ok this] s' show ?case by simp
qed

lemma run_from_init_returns:
  assumes "announced_once insts es init"
  shows "\<exists>t. run insts es init = Inr t \<and> registry_consistent t"
  using run_returns [OF registry_ok_init assms] by (auto simp: registry_ok_def)

lemma twice_announced_socket_throws:
  "run [GracefulShutdown 7 no_opts, GracefulShutdown 7 no_opts]
     [Connection 3, Connection 3, Signal 0] init
   = Inl (TypeError,
          \<lparr> isShuttingDown = True, connections = [(0, 3)], connectionCounter = 2,
            sockets = (\<lambda>_. \<lparr> isIdle = False, connectionId = None \<rparr>)
                        (3 := \<lparr> isIdle = True, connectionId = Some 1 \<rparr>),
            timers = [30000], pending = [], closing = [], exited = None,
            trace = [SetTimeout 30000, SocketDestroy 3] \<rparr>)"
  by (simp add: example_defs)

end
